theory Spec2Isabelle
  imports Main "HOL-Library.Word"
begin

unbundle bit_operations_syntax

section \<open>Runtime failures\<close>

text \<open>
  A Go slice read or write outside \<open>0 \<le> i < len\<close> panics, and so does a read through a
  nil pointer. The panic is a value of the model: every fallible function returns \<open>panic + 'a\<close>, with \<open>Inl\<close> for the panic.
\<close>

datatype panic = IndexOutOfRange | NilDereference

definition slice_at :: "'a list \<Rightarrow> int \<Rightarrow> panic + 'a" where
  "slice_at xs i = (if 0 \<le> i \<and> i < int (length xs) then Inr (xs ! nat i) else Inl IndexOutOfRange)"

definition slice_set :: "'a list \<Rightarrow> int \<Rightarrow> 'a \<Rightarrow> panic + 'a list" where
  "slice_set xs i w = (if 0 \<le> i \<and> i < int (length xs) then Inr (xs[nat i := w]) else Inl IndexOutOfRange)"

section \<open>The Myers line differ\<close>

text \<open>
  \<open>fileLine\<close>, \<open>fileDiff\<close>, \<open>backtrackEl\<close> and \<open>myersDifferer\<close> are the structs of the
  source. Field names that would shadow variables carry a prefix. Go's \<open>int\<close> is
  modelled by \<open>int\<close>: every value here is bounded by twice the number of lines.
\<close>

record fileLine =
  number :: int
  linetext :: string

record myersDifferer =
  md_a :: "fileLine list"
  md_b :: "fileLine list"

datatype fileDiffType = fileDiffIns | fileDiffDel | fileDiffEql

record fileDiff =
  lineA :: "fileLine option"
  lineB :: "fileLine option"
  diffType :: fileDiffType

record backtrackEl =
  prevX :: int
  prevY :: int
  el_x :: int
  el_y :: int

definition getIndexV :: "int \<Rightarrow> int \<Rightarrow> int \<Rightarrow> int" where
  "getIndexV lenA lenB val = (let max = lenA + lenB in val + max)"

text \<open>
  The test \<open>k == -d || (k != d && v[i1] < v[i2])\<close> of \<open>GetShortestPath\<close> and
  \<open>Backtrack\<close>, with Go's short-circuit evaluation: the two reads of \<open>v\<close> happen only
  when \<open>k\<close> is neither \<open>-d\<close> nor \<open>d\<close>.
\<close>

definition takesDown :: "int list \<Rightarrow> int \<Rightarrow> int \<Rightarrow> int \<Rightarrow> int \<Rightarrow> panic + bool" where
  "takesDown v lenA lenB d k =
     (let i1 = getIndexV lenA lenB (k - 1);
          i2 = getIndexV lenA lenB (k + 1)
      in if k = - d then Inr True
         else if k \<noteq> d then
           (case slice_at v i1 of Inl e \<Rightarrow> Inl e
            | Inr v1 \<Rightarrow> (case slice_at v i2 of Inl e \<Rightarrow> Inl e
                         | Inr v2 \<Rightarrow> Inr (v1 < v2)))
         else Inr False)"

text \<open>The loop \<open>for x < n && y < m && md.a[x].text == md.b[y].text { x++; y++ }\<close>.\<close>

function snake :: "myersDifferer \<Rightarrow> int \<Rightarrow> int \<Rightarrow> panic + (int \<times> int)" where
  "snake md x y =
     (if x < int (length (md_a md)) \<and> y < int (length (md_b md)) then
        (case slice_at (md_a md) x of Inl e \<Rightarrow> Inl e
         | Inr la \<Rightarrow> (case slice_at (md_b md) y of Inl e \<Rightarrow> Inl e
                      | Inr lb \<Rightarrow> if linetext la = linetext lb then snake md (x + 1) (y + 1)
                                  else Inr (x, y)))
      else Inr (x, y))"
  by pat_completeness auto
termination
  by (relation "measure (\<lambda>(md, x, y). nat (int (length (md_a md)) - x))") auto

declare snake.simps [simp del]

text \<open>
  One pass of the body of the inner loop of \<open>GetShortestPath\<close>, up to and including
  \<open>v[i] = x\<close>: the new vector and the end point of the snake.
\<close>

definition kStep :: "myersDifferer \<Rightarrow> int \<Rightarrow> int \<Rightarrow> int list \<Rightarrow> panic + (int list \<times> int \<times> int)" where
  "kStep md d k v =
     (let lenA = int (length (md_a md)); lenB = int (length (md_b md))
      in case takesDown v lenA lenB d k of Inl e \<Rightarrow> Inl e
         | Inr down \<Rightarrow>
             (case (if down then slice_at v (getIndexV lenA lenB (k + 1))
                    else (case slice_at v (getIndexV lenA lenB (k - 1)) of Inl e \<Rightarrow> Inl e
                          | Inr w \<Rightarrow> Inr (w + 1))) of
                Inl e \<Rightarrow> Inl e
              | Inr x0 \<Rightarrow>
                  (case snake md x0 (x0 - k) of Inl e \<Rightarrow> Inl e
                   | Inr (x, y) \<Rightarrow>
                       (case slice_set v (getIndexV lenA lenB k) x of Inl e \<Rightarrow> Inl e
                        | Inr v' \<Rightarrow> Inr (v', x, y)))))"

text \<open>
  The loop \<open>for k := -d; k <= d; k = k + 2\<close>. The flag of the result says whether the
  loop left through the \<open>return trace\<close> inside it.
\<close>

function kLoop :: "myersDifferer \<Rightarrow> int \<Rightarrow> int \<Rightarrow> int list \<Rightarrow> panic + (int list \<times> bool)" where
  "kLoop md d k v =
     (if k \<le> d then
        (case kStep md d k v of Inl e \<Rightarrow> Inl e
         | Inr (v', x, y) \<Rightarrow>
             if x \<ge> int (length (md_a md)) \<and> y \<ge> int (length (md_b md)) then Inr (v', True)
             else kLoop md d (k + 2) v')
      else Inr (v, False))"
  by pat_completeness auto
termination
  by (relation "measure (\<lambda>(md, d, k, v). nat (d - k + 1))") auto

declare kLoop.simps [simp del]

text \<open>
  The loop \<open>for d := 0; d <= max; d++\<close>, appending a copy of \<open>v\<close> to the trace after
  each round. Falling out of the loop is the source's \<open>return nil\<close>: an empty trace.
\<close>

function dLoop :: "myersDifferer \<Rightarrow> int \<Rightarrow> int list \<Rightarrow> int list list \<Rightarrow> panic + int list list" where
  "dLoop md d v trace =
     (let max = int (length (md_a md)) + int (length (md_b md))
      in if d \<le> max then
           (case kLoop md d (- d) v of Inl e \<Rightarrow> Inl e
            | Inr (v', returned) \<Rightarrow>
                if returned then Inr (trace @ [v'])
                else dLoop md (d + 1) v' (trace @ [v']))
         else Inr [])"
  by pat_completeness auto
termination
  by (relation "measure (\<lambda>(md, d, v, trace). nat (int (length (md_a md)) + int (length (md_b md)) - d + 1))") auto

declare dLoop.simps [simp del]

definition GetShortestPath :: "myersDifferer \<Rightarrow> panic + int list list" where
  "GetShortestPath md =
     (let n = int (length (md_a md)); m = int (length (md_b md));
          max = n + m;
          vLen = 2 * max + 1;
          v = replicate (nat vLen) 0
      in dLoop md 0 v [])"

text \<open>
  \<open>Backtrack\<close> sends its elements over a channel; the model returns them as the list
  of the elements in the order sent. The inner loop
  \<open>for x > prevX && y > prevY\<close> returns what it sends and the final \<open>x, y\<close>.
\<close>

function walkBack :: "int \<Rightarrow> int \<Rightarrow> int \<Rightarrow> int \<Rightarrow> backtrackEl list \<times> int \<times> int" where
  "walkBack x y pX pY =
     (if x > pX \<and> y > pY then
        (case walkBack (x - 1) (y - 1) pX pY of
           (els, x', y') \<Rightarrow>
             (\<lparr>prevX = x - 1, prevY = y - 1, el_x = x, el_y = y\<rparr> # els, x', y'))
      else ([], x, y))"
  by pat_completeness auto
termination
  by (relation "measure (\<lambda>(x, y, pX, pY). nat (x - pX))") auto

declare walkBack.simps [simp del]

function backtrackLoop :: "myersDifferer \<Rightarrow> int list list \<Rightarrow> int \<Rightarrow> int \<Rightarrow> int \<Rightarrow> panic + backtrackEl list" where
  "backtrackLoop md trace i x y =
     (let lenA = int (length (md_a md)); lenB = int (length (md_b md));
          trLen = int (length trace)
      in if i < trLen then
           (let d = trLen - i - 1
            in case slice_at trace d of Inl e \<Rightarrow> Inl e
               | Inr v \<Rightarrow>
                   (let k = x - y
                    in case takesDown v lenA lenB d k of Inl e \<Rightarrow> Inl e
                       | Inr down \<Rightarrow>
                           (let prevK = (if down then k + 1 else k - 1);
                                j = getIndexV lenA lenB prevK
                            in case slice_at v j of Inl e \<Rightarrow> Inl e
                               | Inr pX \<Rightarrow>
                                   (let pY = pX - prevK
                                    in case walkBack x y pX pY of
                                         (els, x', y') \<Rightarrow>
                                           (let sent = (if d > 0
                                                        then els @ [\<lparr>prevX = pX, prevY = pY, el_x = x', el_y = y'\<rparr>]
                                                        else els)
                                            in case backtrackLoop md trace (i + 1) pX pY of
                                                 Inl e \<Rightarrow> Inl e
                                               | Inr rest \<Rightarrow> Inr (sent @ rest))))))
         else Inr [])"
  by pat_completeness auto
termination
  by (relation "measure (\<lambda>(md, trace, i, x, y). nat (int (length trace) - i))") auto

declare backtrackLoop.simps [simp del]

definition Backtrack :: "myersDifferer \<Rightarrow> int list list \<Rightarrow> panic + backtrackEl list" where
  "Backtrack md trace =
     (let lenA = int (length (md_a md)); lenB = int (length (md_b md))
      in backtrackLoop md trace 0 lenA lenB)"

text \<open>
  The body of the loop of \<open>Diff\<close> over the received elements. \<open>lineA\<close> and \<open>lineB\<close>
  start as the zero \<open>fileLine\<close>; only an upper bound guards each read.
\<close>

definition zeroLine :: fileLine where
  "zeroLine = \<lparr>number = 0, linetext = []\<rparr>"

definition diffOf :: "myersDifferer \<Rightarrow> backtrackEl \<Rightarrow> panic + fileDiff" where
  "diffOf md res =
     (let lenA = int (length (md_a md)); lenB = int (length (md_b md))
      in case (if prevX res < lenA then slice_at (md_a md) (prevX res) else Inr zeroLine) of
           Inl e \<Rightarrow> Inl e
         | Inr la \<Rightarrow>
             (case (if prevY res < lenB then slice_at (md_b md) (prevY res) else Inr zeroLine) of
                Inl e \<Rightarrow> Inl e
              | Inr lb \<Rightarrow>
                  if el_x res = prevX res
                  then Inr \<lparr>lineA = None, lineB = Some lb, diffType = fileDiffIns\<rparr>
                  else if el_y res = prevY res
                  then Inr \<lparr>lineA = Some la, lineB = None, diffType = fileDiffDel\<rparr>
                  else Inr \<lparr>lineA = Some la, lineB = Some lb, diffType = fileDiffEql\<rparr>))"

fun diffAll :: "myersDifferer \<Rightarrow> backtrackEl list \<Rightarrow> panic + fileDiff list" where
  "diffAll md [] = Inr []"
| "diffAll md (res # rest) =
     (case diffOf md res of Inl e \<Rightarrow> Inl e
      | Inr fd \<Rightarrow> (case diffAll md rest of Inl e \<Rightarrow> Inl e
                   | Inr fds \<Rightarrow> Inr (fd # fds)))"

definition Diff :: "myersDifferer \<Rightarrow> panic + fileDiff list" where
  "Diff md =
     (case GetShortestPath md of Inl e \<Rightarrow> Inl e
      | Inr trace \<Rightarrow>
          (case Backtrack md trace of Inl e \<Rightarrow> Inl e
           | Inr els \<Rightarrow> diffAll md els))"

definition NewMyersDifferer :: "fileLine list \<Rightarrow> fileLine list \<Rightarrow> myersDifferer" where
  "NewMyersDifferer a b = \<lparr>md_a = a, md_b = b\<rparr>"

section \<open>The three-way file merger\<close>

text \<open>
  A blob is modelled by the list of its lines, as the scanner of \<open>getFileLines\<close> yields
  them; \<open>getFileLines\<close> numbers them from \<open>0\<close>. The temporary file is modelled by the
  bytes written to it so far; reader, scanner and write errors of the collaborators are
  not part of this model. The struct \<open>match\<close> has the three fields of \<open>indexes\<close> and
  is modelled by the same record. The methods \<open>setup\<close> and \<open>Merge\<close> of \<open>diff3\<close> are
  \<open>diff3_setup\<close> and \<open>diff3_Merge\<close> here; the fields \<open>from\<close> and \<open>to\<close> of
  \<open>indexRange\<close> are \<open>ir_from\<close> and \<open>ir_to\<close>.
\<close>

record diff3 =
  diffA :: "fileDiff list"
  diffB :: "fileDiff list"
  d3_base :: "fileLine list"
  d3_a :: "fileLine list"
  d3_b :: "fileLine list"

record indexes =
  baseIndex :: int
  aIndex :: int
  bIndex :: int

record indexRange =
  ir_from :: indexes
  ir_to :: indexes

record mergingFileInfo =
  contents :: string
  unResolvedConflicts :: int

definition newline :: char where
  "newline = CHR 0x0A"

definition delimStart :: string where
  "delimStart = ''<<<<<<< yours'' @ [newline]"

definition delimMiddle :: string where
  "delimMiddle = ''======='' @ [newline]"

definition delimEnd :: string where
  "delimEnd = ''>>>>>>> theirs'' @ [newline]"

definition getFileLines :: "string list \<Rightarrow> fileLine list" where
  "getFileLines ls = map (\<lambda>(i, t). \<lparr>number = int i, linetext = t\<rparr>) (enumerate 0 ls)"

definition diffFiles :: "fileLine list \<Rightarrow> fileLine list \<Rightarrow> panic + fileDiff list" where
  "diffFiles one two = Diff (NewMyersDifferer one two)"

definition diff3_setup :: "string list \<Rightarrow> string list \<Rightarrow> string list \<Rightarrow> panic + diff3" where
  "diff3_setup baseB oursB theirsB =
     (let linesBase = getFileLines baseB;
          linesOurs = getFileLines oursB;
          linesTheirs = getFileLines theirsB
      in case diffFiles linesBase linesOurs of Inl e \<Rightarrow> Inl e
         | Inr diffOurs \<Rightarrow>
             (case diffFiles linesBase linesTheirs of Inl e \<Rightarrow> Inl e
              | Inr diffTheirs \<Rightarrow>
                  Inr \<lparr>diffA = diffOurs, diffB = diffTheirs, d3_base = linesBase,
                       d3_a = linesOurs, d3_b = linesTheirs\<rparr>))"

text \<open>\<open>getMatches\<close>: the loop over the diff, storing into the Go map.\<close>

fun addMatches :: "(int \<rightharpoonup> int) \<Rightarrow> fileDiff list \<Rightarrow> panic + (int \<rightharpoonup> int)" where
  "addMatches matches [] = Inr matches"
| "addMatches matches (el # fd) =
     (if diffType el = fileDiffEql then
        (case lineA el of None \<Rightarrow> Inl NilDereference
         | Some la \<Rightarrow> (case lineB el of None \<Rightarrow> Inl NilDereference
                       | Some lb \<Rightarrow> addMatches (matches(number la \<mapsto> number lb)) fd))
      else addMatches matches fd)"

definition getMatches :: "fileDiff list \<Rightarrow> panic + (int \<rightharpoonup> int)" where
  "getMatches fd = addMatches Map.empty fd"

definition isInBounds :: "diff3 \<Rightarrow> int \<Rightarrow> int \<Rightarrow> int \<Rightarrow> int \<Rightarrow> bool" where
  "isInBounds d i lnBase lnA lnB =
     (lnBase + i \<le> int (length (d3_base d)) \<or> lnA + i \<le> int (length (d3_a d))
      \<or> lnB + i \<le> int (length (d3_b d)))"

definition isMatch :: "(int \<rightharpoonup> int) \<Rightarrow> int \<Rightarrow> int \<Rightarrow> int \<Rightarrow> bool" where
  "isMatch matches lnBase offset i =
     (case matches (lnBase + i) of None \<Rightarrow> False | Some el \<Rightarrow> el = offset + i)"

function mismatchLoop :: "diff3 \<Rightarrow> (int \<rightharpoonup> int) \<Rightarrow> (int \<rightharpoonup> int) \<Rightarrow> int \<Rightarrow> int \<Rightarrow> int \<Rightarrow> int \<Rightarrow> int" where
  "mismatchLoop d matchesA matchesB lnBase lnA lnB i =
     (if isInBounds d i lnBase lnA lnB \<and> isMatch matchesA lnBase lnA i
         \<and> isMatch matchesB lnBase lnB i
      then mismatchLoop d matchesA matchesB lnBase lnA lnB (i + 1)
      else i)"
  by pat_completeness auto
termination
  by (relation "measure (\<lambda>(d, mA, mB, lnBase, lnA, lnB, i).
        nat (max (int (length (d3_base d)) - lnBase)
               (max (int (length (d3_a d)) - lnA) (int (length (d3_b d)) - lnB)) - i + 1))")
     (auto simp: isInBounds_def)

declare mismatchLoop.simps [simp del]

definition getNextMismatch :: "diff3 \<Rightarrow> (int \<rightharpoonup> int) \<Rightarrow> (int \<rightharpoonup> int) \<Rightarrow> int \<Rightarrow> int \<Rightarrow> int \<Rightarrow> int" where
  "getNextMismatch d matchesA matchesB lnBase lnA lnB =
     (let i = mismatchLoop d matchesA matchesB lnBase lnA lnB 0
      in if isInBounds d i lnBase lnA lnB then i else - 1)"

function matchLoop :: "diff3 \<Rightarrow> (int \<rightharpoonup> int) \<Rightarrow> (int \<rightharpoonup> int) \<Rightarrow> int \<Rightarrow> indexes option" where
  "matchLoop d matchesA matchesB baseNum =
     (if baseNum < int (length (d3_base d)) then
        (case (matchesA baseNum, matchesB baseNum) of
           (Some mA, Some mB) \<Rightarrow> Some \<lparr>baseIndex = baseNum, aIndex = mA, bIndex = mB\<rparr>
         | _ \<Rightarrow> matchLoop d matchesA matchesB (baseNum + 1))
      else None)"
  by pat_completeness auto
termination
  by (relation "measure (\<lambda>(d, mA, mB, baseNum). nat (int (length (d3_base d)) - baseNum))") auto

declare matchLoop.simps [simp del]

definition getNextMatch :: "diff3 \<Rightarrow> (int \<rightharpoonup> int) \<Rightarrow> (int \<rightharpoonup> int) \<Rightarrow> int \<Rightarrow> indexes option" where
  "getNextMatch d matchesA matchesB lnBase = matchLoop d matchesA matchesB lnBase"

definition writeBlockToFile :: "string list \<Rightarrow> string \<Rightarrow> string" where
  "writeBlockToFile bl f = f @ concat (map (\<lambda>l. l @ [newline]) bl)"

definition writeConflictToFile :: "string list \<Rightarrow> string list \<Rightarrow> string \<Rightarrow> string" where
  "writeConflictToFile ours theirs f =
     (if length ours = 0 \<and> length theirs = 0 then f
      else writeBlockToFile theirs (writeBlockToFile ours (f @ delimStart) @ delimMiddle)
           @ delimEnd)"

definition isBlockEqual :: "string list \<Rightarrow> string list \<Rightarrow> bool" where
  "isBlockEqual blA blB =
     (if length blA \<noteq> length blB then False
      else list_all (\<lambda>(a, b). a = b) (zip blA blB))"

text \<open>
  The local variables of \<open>writeChunk\<close> that its three loops update.
\<close>

record chunkVars =
  cv_j :: int
  cv_k :: int
  blockA :: "string list"
  blockB :: "string list"
  notEqlA :: "fileLine list"
  notEqlB :: "fileLine list"

definition takeA :: "diff3 \<Rightarrow> fileLine option \<Rightarrow> chunkVars \<Rightarrow> panic + chunkVars" where
  "takeA d baseLine s =
     (case slice_at (d3_a d) (cv_j s) of Inl e \<Rightarrow> Inl e
      | Inr aLine \<Rightarrow>
          Inr (s\<lparr>notEqlA := (if (case baseLine of None \<Rightarrow> True
                                  | Some bl \<Rightarrow> linetext bl \<noteq> linetext aLine)
                              then notEqlA s @ [aLine] else notEqlA s),
                 blockA := blockA s @ [linetext aLine],
                 cv_j := cv_j s + 1\<rparr>))"

definition takeB :: "diff3 \<Rightarrow> fileLine option \<Rightarrow> chunkVars \<Rightarrow> panic + chunkVars" where
  "takeB d baseLine s =
     (case slice_at (d3_b d) (cv_k s) of Inl e \<Rightarrow> Inl e
      | Inr bLine \<Rightarrow>
          Inr (s\<lparr>notEqlB := (if (case baseLine of None \<Rightarrow> True
                                  | Some bl \<Rightarrow> linetext bl \<noteq> linetext bLine)
                              then notEqlB s @ [bLine] else notEqlB s),
                 blockB := blockB s @ [linetext bLine],
                 cv_k := cv_k s + 1\<rparr>))"

function chunkBaseLoop :: "diff3 \<Rightarrow> indexRange \<Rightarrow> int \<Rightarrow> chunkVars \<Rightarrow> panic + chunkVars" where
  "chunkBaseLoop d ir i s =
     (if i < baseIndex (ir_to ir) then
        (case slice_at (d3_base d) i of Inl e \<Rightarrow> Inl e
         | Inr baseLine \<Rightarrow>
             (case (if cv_j s < aIndex (ir_to ir) then takeA d (Some baseLine) s else Inr s) of
                Inl e \<Rightarrow> Inl e
              | Inr s1 \<Rightarrow>
                  (case (if cv_k s1 < bIndex (ir_to ir) then takeB d (Some baseLine) s1
                         else Inr s1) of
                     Inl e \<Rightarrow> Inl e
                   | Inr s2 \<Rightarrow> chunkBaseLoop d ir (i + 1) s2)))
      else Inr s)"
  by pat_completeness auto
termination
  by (relation "measure (\<lambda>(d, ir, i, s). nat (baseIndex (ir_to ir) - i))") auto

declare chunkBaseLoop.simps [simp del]

function chunkRestA :: "diff3 \<Rightarrow> indexRange \<Rightarrow> chunkVars \<Rightarrow> panic + chunkVars" where
  "chunkRestA d ir s =
     (if cv_j s < aIndex (ir_to ir) then
        (case takeA d None s of Inl e \<Rightarrow> Inl e | Inr s1 \<Rightarrow> chunkRestA d ir s1)
      else Inr s)"
  by pat_completeness auto
termination
  by (relation "measure (\<lambda>(d, ir, s). nat (aIndex (ir_to ir) - cv_j s))")
     (auto simp: takeA_def split: sum.splits)

declare chunkRestA.simps [simp del]

function chunkRestB :: "diff3 \<Rightarrow> indexRange \<Rightarrow> chunkVars \<Rightarrow> panic + chunkVars" where
  "chunkRestB d ir s =
     (if cv_k s < bIndex (ir_to ir) then
        (case takeB d None s of Inl e \<Rightarrow> Inl e | Inr s1 \<Rightarrow> chunkRestB d ir s1)
      else Inr s)"
  by pat_completeness auto
termination
  by (relation "measure (\<lambda>(d, ir, s). nat (bIndex (ir_to ir) - cv_k s))")
     (auto simp: takeB_def split: sum.splits)

declare chunkRestB.simps [simp del]

text \<open>\<open>writeChunk\<close> returns the number of conflicts written and the file after it.\<close>

definition writeChunk :: "diff3 \<Rightarrow> indexRange \<Rightarrow> string \<Rightarrow> panic + (int \<times> string)" where
  "writeChunk d ir f =
     (let s0 = \<lparr>cv_j = aIndex (ir_from ir), cv_k = bIndex (ir_from ir),
                blockA = [], blockB = [], notEqlA = [], notEqlB = []\<rparr>
      in case chunkBaseLoop d ir (baseIndex (ir_from ir)) s0 of Inl e \<Rightarrow> Inl e
         | Inr s1 \<Rightarrow>
        (case chunkRestA d ir s1 of Inl e \<Rightarrow> Inl e
         | Inr s2 \<Rightarrow>
        (case chunkRestB d ir s2 of Inl e \<Rightarrow> Inl e
         | Inr s \<Rightarrow>
             (let lenBase = baseIndex (ir_to ir) - baseIndex (ir_from ir);
                  lenA = aIndex (ir_to ir) - aIndex (ir_from ir);
                  lenB = bIndex (ir_to ir) - bIndex (ir_from ir);
                  isEqlA = ((lenBase < 1 \<and> lenA < 1)
                            \<or> (lenBase = lenA \<and> aIndex (ir_from ir) \<noteq> aIndex (ir_to ir)
                                \<and> length (notEqlA s) = 0));
                  isEqlB = ((lenBase < 1 \<and> lenB < 1)
                            \<or> (lenBase = lenB \<and> bIndex (ir_from ir) \<noteq> bIndex (ir_to ir)
                                \<and> length (notEqlB s) = 0));
                  areBothEmpty = (aIndex (ir_from ir) \<ge> aIndex (ir_to ir)
                                  \<and> bIndex (ir_from ir) \<ge> bIndex (ir_to ir))
              in if isEqlA \<and> isEqlB then Inr (0, writeBlockToFile (blockA s) f)
                 else if isEqlA then Inr (0, writeBlockToFile (blockB s) f)
                 else if isEqlB then Inr (0, writeBlockToFile (blockA s) f)
                 else if \<not> areBothEmpty then
                   (if isBlockEqual (blockA s) (blockB s)
                    then Inr (0, writeBlockToFile (blockA s) f)
                    else Inr (1, writeConflictToFile (blockA s) (blockB s) f))
                 else Inr (0, f)))))"

definition emitChunk :: "diff3 \<Rightarrow> indexes \<Rightarrow> indexes \<Rightarrow> string \<Rightarrow> panic + (indexes \<times> int \<times> string)" where
  "emitChunk d currentPositions match f =
     (let baseTo = baseIndex match; aTo = aIndex match; bTo = bIndex match;
          ir = \<lparr>ir_from = currentPositions,
                ir_to = \<lparr>baseIndex = baseTo, aIndex = aTo, bIndex = bTo\<rparr>\<rparr>
      in case writeChunk d ir f of Inl e \<Rightarrow> Inl e
         | Inr (conflicts, f') \<Rightarrow>
             Inr (\<lparr>baseIndex = baseIndex match, aIndex = aIndex match, bIndex = bIndex match\<rparr>,
                  conflicts, f'))"

definition emitFinalChunk :: "diff3 \<Rightarrow> indexes \<Rightarrow> string \<Rightarrow> panic + (int \<times> string)" where
  "emitFinalChunk d frm f =
     (let baseTo = int (length (d3_base d)); aTo = int (length (d3_a d));
          bTo = int (length (d3_b d));
          ir = \<lparr>ir_from = frm, ir_to = \<lparr>baseIndex = baseTo, aIndex = aTo, bIndex = bTo\<rparr>\<rparr>
      in writeChunk d ir f)"

text \<open>
  The loop \<open>for { ... }\<close> of \<open>writeChunks\<close>. Nothing in the loop itself bounds the
  number of passes, so it is a partial function: \<open>None\<close> is a loop that does not return.
\<close>

partial_function (option) writeChunksLoop ::
  "diff3 \<Rightarrow> (int \<rightharpoonup> int) \<Rightarrow> (int \<rightharpoonup> int) \<Rightarrow> int \<Rightarrow> int \<Rightarrow> int \<Rightarrow> int \<Rightarrow> string
   \<Rightarrow> (panic + (int \<times> string)) option" where
  "writeChunksLoop d matchesA matchesB lnBase lnA lnB conflicts f =
     (let i = getNextMismatch d matchesA matchesB lnBase lnA lnB
      in if i = 0 then
           (case getNextMatch d matchesA matchesB lnBase of
              Some match \<Rightarrow>
                (case emitChunk d \<lparr>baseIndex = lnBase, aIndex = lnA, bIndex = lnB\<rparr> match f of
                   Inl e \<Rightarrow> Some (Inl e)
                 | Inr (newIndexes, conf, f') \<Rightarrow>
                     writeChunksLoop d matchesA matchesB (baseIndex newIndexes)
                       (aIndex newIndexes) (bIndex newIndexes) (conflicts + conf) f')
            | None \<Rightarrow>
                (case emitFinalChunk d \<lparr>baseIndex = lnBase, aIndex = lnA, bIndex = lnB\<rparr> f of
                   Inl e \<Rightarrow> Some (Inl e)
                 | Inr (conf, f') \<Rightarrow> Some (Inr (conflicts + conf, f'))))
         else if i \<noteq> - 1 then
           (case emitChunk d \<lparr>baseIndex = lnBase, aIndex = lnA, bIndex = lnB\<rparr>
                   \<lparr>baseIndex = lnBase + i, aIndex = lnA + i, bIndex = lnB + i\<rparr> f of
              Inl e \<Rightarrow> Some (Inl e)
            | Inr (newIndexes, conf, f') \<Rightarrow>
                writeChunksLoop d matchesA matchesB (baseIndex newIndexes)
                  (aIndex newIndexes) (bIndex newIndexes) (conflicts + conf) f')
         else
           (case emitFinalChunk d \<lparr>baseIndex = lnBase, aIndex = lnA, bIndex = lnB\<rparr> f of
              Inl e \<Rightarrow> Some (Inl e)
            | Inr (conf, f') \<Rightarrow> Some (Inr (conflicts + conf, f'))))"

declare writeChunksLoop.simps [code]

definition writeChunks :: "diff3 \<Rightarrow> string \<Rightarrow> (panic + (int \<times> string)) option" where
  "writeChunks d f =
     (case getMatches (diffA d) of Inl e \<Rightarrow> Some (Inl e)
      | Inr matchesA \<Rightarrow>
          (case getMatches (diffB d) of Inl e \<Rightarrow> Some (Inl e)
           | Inr matchesB \<Rightarrow> writeChunksLoop d matchesA matchesB 0 0 0 0 f))"

text \<open>
  \<open>Merge\<close> of \<open>diff3\<close>: the result carries the contents of the temporary file in place
  of its path.
\<close>

definition diff3_Merge :: "string list \<Rightarrow> string list \<Rightarrow> string list \<Rightarrow> (panic + mergingFileInfo) option" where
  "diff3_Merge baseB oursB theirsB =
     (case diff3_setup baseB oursB theirsB of Inl e \<Rightarrow> Some (Inl e)
      | Inr d \<Rightarrow>
          (case writeChunks d [] of None \<Rightarrow> None
           | Some (Inl e) \<Rightarrow> Some (Inl e)
           | Some (Inr (conflicts, temp)) \<Rightarrow>
               Some (Inr \<lparr>contents = temp, unResolvedConflicts = conflicts\<rparr>)))"

section \<open>The commit graph walker\<close>

text \<open>
  A commit is its hash, the hashes of its parents and the time of its author signature
  (seconds; \<open>markCommit\<close> takes it as the priority). The object storage is a map from
  hashes to commits, and \<open>object.GetCommit\<close> fails on a hash it does not hold.
\<close>

record commit =
  Hash :: string
  ParentHashes :: "string list"
  AuthorWhen :: int

type_synonym storer = "string \<rightharpoonup> commit"

datatype walk_error = ErrObjectNotFound | Panicked panic

definition markNone :: "32 word" where "markNone = push_bit 0 1"
definition markParent1 :: "32 word" where "markParent1 = push_bit 1 1"
definition markParent2 :: "32 word" where "markParent2 = push_bit 2 1"
definition markStale :: "32 word" where "markStale = push_bit 3 1"
definition markResult :: "32 word" where "markResult = push_bit 4 1"

record prioritizedCommit =
  pc_value :: commit
  flags :: "32 word"
  priority :: int
  pc_index :: int

type_synonym PriorityQueue = "prioritizedCommit list"

definition pq_Len :: "PriorityQueue \<Rightarrow> nat" where
  "pq_Len pq = length pq"

definition pq_Less :: "PriorityQueue \<Rightarrow> nat \<Rightarrow> nat \<Rightarrow> bool" where
  "pq_Less pq i j = (priority (pq ! i) > priority (pq ! j))"

definition pq_Swap :: "PriorityQueue \<Rightarrow> nat \<Rightarrow> nat \<Rightarrow> PriorityQueue" where
  "pq_Swap pq i j =
     (let pq1 = pq[i := pq ! j, j := pq ! i];
          pq2 = pq1[i := (pq1 ! i)\<lparr>pc_index := int i\<rparr>]
      in pq2[j := (pq2 ! j)\<lparr>pc_index := int j\<rparr>])"

text \<open>
  The loop of \<open>Push\<close> over the queue: the first element with the hash of the item takes
  the item's flags, and the flag \<open>hasEl\<close> is returned with the queue.
\<close>

fun orFlags :: "PriorityQueue \<Rightarrow> prioritizedCommit \<Rightarrow> PriorityQueue \<times> bool" where
  "orFlags [] item = ([], False)"
| "orFlags (el # rest) item =
     (if Hash (pc_value el) = Hash (pc_value item)
      then (el\<lparr>flags := flags el OR flags item\<rparr> # rest, True)
      else (case orFlags rest item of (rest', hasEl) \<Rightarrow> (el # rest', hasEl)))"

definition pq_Push :: "PriorityQueue \<Rightarrow> prioritizedCommit \<Rightarrow> PriorityQueue" where
  "pq_Push pq item =
     (let n = length pq
      in case orFlags pq item of
           (pq', hasEl) \<Rightarrow> if \<not> hasEl then pq' @ [item\<lparr>pc_index := int n\<rparr>] else pq')"

definition pq_Pop :: "PriorityQueue \<Rightarrow> panic + (prioritizedCommit \<times> PriorityQueue)" where
  "pq_Pop old =
     (let n = length old
      in if n = 0 then Inl IndexOutOfRange
         else Inr ((old ! (n - 1))\<lparr>pc_index := - 1\<rparr>, take (n - 1) old))"

definition interesting :: "PriorityQueue \<Rightarrow> bool" where
  "interesting pq = list_ex (\<lambda>el. flags el AND markStale = 0) pq"

text \<open>
  \<open>heap.Push\<close> and \<open>heap.Pop\<close> are those of Go's \<open>container/heap\<close>, with its loops
  \<open>up\<close> and \<open>down\<close>. Indices are natural numbers: \<open>(j - 1) / 2\<close> is \<open>0\<close> for \<open>j = 0\<close>
  in Go (division truncates towards zero) as it is here, and every read of the queue
  in \<open>up\<close> and \<open>down\<close> is at an index below the length they are called with.
\<close>

function up :: "PriorityQueue \<Rightarrow> nat \<Rightarrow> PriorityQueue" where
  "up h j =
     (let i = (j - 1) div 2
      in if i = j \<or> \<not> pq_Less h j i then h
         else up (pq_Swap h i j) i)"
  by pat_completeness auto
termination
  by (relation "measure (\<lambda>(h, j). j)") auto

declare up.simps [simp del]

function down :: "PriorityQueue \<Rightarrow> nat \<Rightarrow> nat \<Rightarrow> PriorityQueue" where
  "down h i n =
     (let j1 = 2 * i + 1
      in if j1 \<ge> n then h
         else (let j2 = j1 + 1;
                   j = (if j2 < n \<and> pq_Less h j2 j1 then j2 else j1)
               in if \<not> pq_Less h j i then h
                  else down (pq_Swap h i j) j n))"
  by pat_completeness auto
termination
  by (relation "measure (\<lambda>(h, i, n). n - i)") (auto split: if_splits)

declare down.simps [simp del]

definition heap_Push :: "PriorityQueue \<Rightarrow> prioritizedCommit \<Rightarrow> PriorityQueue" where
  "heap_Push h x = (let h' = pq_Push h x in up h' (pq_Len h' - 1))"

definition heap_Pop :: "PriorityQueue \<Rightarrow> panic + (prioritizedCommit \<times> PriorityQueue)" where
  "heap_Pop h =
     (if pq_Len h = 0 then Inl IndexOutOfRange
      else (let n = pq_Len h - 1
            in pq_Pop (down (pq_Swap h 0 n) 0 n)))"

definition markCommit :: "commit \<Rightarrow> 32 word \<Rightarrow> prioritizedCommit" where
  "markCommit c fl = \<lparr>pc_value = c, flags = fl, priority = AuthorWhen c, pc_index = 0\<rparr>"

fun getCommits :: "storer \<Rightarrow> string list \<Rightarrow> walk_error + commit list" where
  "getCommits s [] = Inr []"
| "getCommits s (h # hs) =
     (case s h of None \<Rightarrow> Inl ErrObjectNotFound
      | Some p \<Rightarrow> (case getCommits s hs of Inl e \<Rightarrow> Inl e
                    | Inr res \<Rightarrow> Inr (p # res)))"

definition getParents :: "storer \<Rightarrow> commit \<Rightarrow> walk_error + commit list" where
  "getParents s c = getCommits s (ParentHashes c)"

fun pushParents :: "PriorityQueue \<Rightarrow> commit list \<Rightarrow> 32 word \<Rightarrow> PriorityQueue" where
  "pushParents prQ [] fl = prQ"
| "pushParents prQ (p # parents) fl = pushParents (heap_Push prQ (markCommit p fl)) parents fl"

text \<open>
  The loop \<open>for prQ.interesting()\<close> of \<open>getCommonParents\<close>. The storage may hold a
  cycle of parents, on which the loop does not end: it is a partial function, and
  \<open>None\<close> is a walk that does not return.
\<close>

partial_function (option) commonParentsLoop ::
  "storer \<Rightarrow> PriorityQueue \<Rightarrow> commit list \<Rightarrow> (walk_error + commit list) option" where
  "commonParentsLoop s prQ res =
     (if interesting prQ then
        (case heap_Pop prQ of Inl e \<Rightarrow> Some (Inl (Panicked e))
         | Inr (el, prQ1) \<Rightarrow>
             (let fl = flags el AND (markParent1 OR markParent2 OR markStale);
                  isBase = (fl = (markParent1 OR markParent2));
                  res1 = (if isBase \<and> flags el AND markResult = 0 then res @ [pc_value el]
                          else res);
                  fl1 = (if isBase then fl OR markStale else fl)
              in case getParents s (pc_value el) of Inl e \<Rightarrow> Some (Inl e)
                 | Inr parents \<Rightarrow> commonParentsLoop s (pushParents prQ1 parents fl1) res1))
      else Some (Inr res))"

declare commonParentsLoop.simps [code]

definition getCommonParents :: "storer \<Rightarrow> commit \<Rightarrow> commit \<Rightarrow> (walk_error + commit list) option" where
  "getCommonParents s oldC newC =
     (let prQ = heap_Push (heap_Push [] (markCommit oldC markParent1)) (markCommit newC markParent2)
      in commonParentsLoop s prQ [])"

section \<open>The merge orchestrator\<close>

text \<open>
  The orchestrator drives collaborators whose code is not among the source files: the
  repository (\<open>Head\<close>, \<open>MergeHead\<close>), the reference and object storage, the fast-forward
  test, \<open>Reset\<close>, the two tree differs of the working tree, the action of a change and
  the short form of a reference name. They are fields of an environment.

  Two more fields, \<open>w_computeParent\<close> and \<open>w_mergeCommits\<close>, stand for the functions
  \<open>computeParent\<close> and \<open>mergeCommits\<close> of \<open>worktree_merge.go\<close>, which this theory does
  not translate (the first runs the walker above and builds a virtual parent from
  several merge bases, the second classifies every changed path and merges files).
  \<open>nonFastForwardMerge\<close> is translated for whatever the two return.

  Everything a call may change (references, index, working tree, \<open>MERGE_HEAD\<close>,
  \<open>ORIG_HEAD\<close>, \<open>MERGE_MSG\<close>, the blob cache) is one state of type \<open>'s\<close>: a call that
  writes takes the state and returns the new one, with its error if it fails; a call
  that only reads returns its result or its error.

  An error of the source is either one of the five sentinel values of the package or
  any other error value (a collaborator's, or one that \<open>computeParent\<close> or
  \<open>mergeCommits\<close> returns), of type \<open>'e\<close>. A Go result \<open>(x, err)\<close> with \<open>err = nil\<close> is
  \<open>(x, None)\<close>.
\<close>

datatype 'e error =
  ErrHeadNotFound
| ErrMergeInProgress
| ErrMergeCommitNeeded
| ErrMergeWithConflicts
| ErrHasUncommittedFiles
| Other 'e

datatype merkletrie_Action = merkletrie_Insert | merkletrie_Delete | merkletrie_Modify

datatype ResetMode = MixedReset | HardReset | MergeReset | SoftReset

record ResetOptions =
  ro_Commit :: string
  ro_Mode :: ResetMode

datatype mergeDiffType =
  mergeDiffNoConflict
| mergeDiffBothModifiedWithConflicts
| mergeDiffBothModifiedWithoutConflicts
| mergeDiffBothAdded
| mergeDiffBothDeleted
| mergeDiffModifiedDeleted
| mergeDiffDeletedModified

record mergingResult =
  mr_diffType :: mergeDiffType

text \<open>
  A reference (\<open>plumbing.Reference\<close>, declared outside the source files), with what the
  source uses of it: its type, its name, the hash it holds and the name of the
  reference it points to. \<open>Type\<close>, \<open>Name\<close>, \<open>Hash\<close> and \<open>Target\<close> read the four fields;
  \<open>NewHashReference\<close> builds a reference that holds a hash.
\<close>

datatype ReferenceType = InvalidReference | HashReference | SymbolicReference

record Reference =
  rf_Type :: ReferenceType
  rf_Name :: string
  rf_Hash :: string
  rf_Target :: string

definition NewHashReference :: "string \<Rightarrow> string \<Rightarrow> Reference" where
  "NewHashReference n h = \<lparr>rf_Type = HashReference, rf_Name = n, rf_Hash = h, rf_Target = []\<rparr>"

record ('s, 'e, 'ch, 'mc) env =
  r_Head :: "'s \<Rightarrow> 'e + Reference option"
  s_Reference :: "string \<Rightarrow> 's \<Rightarrow> 'e + Reference"
  isFastForward :: "string \<Rightarrow> string \<Rightarrow> 's \<Rightarrow> 'e + bool"
  w_Reset :: "ResetOptions \<Rightarrow> 's \<Rightarrow> 'e option \<times> 's"
  r_MergeHead :: "'s \<Rightarrow> 'e + Reference option"
  w_diffCommitWithStaging :: "string \<Rightarrow> bool \<Rightarrow> 's \<Rightarrow> 'e + 'ch list"
  w_diffStagingWithWorktree :: "bool \<Rightarrow> 's \<Rightarrow> 'e + 'ch list"
  ch_Action :: "'ch \<Rightarrow> 'e + merkletrie_Action"
  object_GetCommit :: "string \<Rightarrow> 's \<Rightarrow> 'e + commit"
  w_computeParent :: "commit \<Rightarrow> commit \<Rightarrow> 's \<Rightarrow> ('e + 'mc) \<times> 's"
  s_SetReference :: "Reference \<Rightarrow> 's \<Rightarrow> 'e option \<times> 's"
  w_mergeCommits :: "'mc \<Rightarrow> commit \<Rightarrow> commit \<Rightarrow> int \<Rightarrow> 's
                     \<Rightarrow> ('e + (string \<times> mergingResult) list) \<times> 's"
  s_SetMergeMsg :: "string \<Rightarrow> 's \<Rightarrow> 'e option \<times> 's"
  s_MergeMsg :: "'s \<Rightarrow> 'e + string"
  s_MergeMsgFileContent :: "'s \<Rightarrow> 'e + string"
  rn_Short :: "string \<Rightarrow> string"

definition NewBranchReferenceName :: "string \<Rightarrow> string" where
  "NewBranchReferenceName name = ''refs/heads/'' @ name"

definition HEAD :: string where "HEAD = ''HEAD''"
definition MERGE_HEAD :: string where "MERGE_HEAD = ''MERGE_HEAD''"
definition ORIG_HEAD :: string where "ORIG_HEAD = ''ORIG_HEAD''"

text \<open>
  \<open>updateHEAD\<close> of \<open>worktree_commit.go\<close>: it reads the reference \<open>HEAD\<close> and writes the
  commit to \<open>HEAD\<close> itself when that holds a hash, and to the reference \<open>HEAD\<close> points
  to otherwise.
\<close>

definition updateHEAD :: "('s, 'e, 'ch, 'mc) env \<Rightarrow> string \<Rightarrow> 's \<Rightarrow> 'e option \<times> 's" where
  "updateHEAD w commit s =
     (case s_Reference w HEAD s of Inl err \<Rightarrow> (Some err, s)
      | Inr head \<Rightarrow>
          (let name = (if rf_Type head \<noteq> HashReference then rf_Target head else HEAD);
               ref = NewHashReference name commit
           in s_SetReference w ref s))"

text \<open>\<open>MergeMsg\<close> and \<open>MergeMsgFileContent\<close> of \<open>Worktree\<close>.\<close>

definition MergeMsg :: "('s, 'e, 'ch, 'mc) env \<Rightarrow> 's \<Rightarrow> string \<times> 'e error option" where
  "MergeMsg w s = (case s_MergeMsg w s of Inl err \<Rightarrow> ([], None) | Inr msg \<Rightarrow> (msg, None))"

definition MergeMsgFileContent :: "('s, 'e, 'ch, 'mc) env \<Rightarrow> 's \<Rightarrow> string \<times> 'e error option" where
  "MergeMsgFileContent w s =
     (case s_MergeMsgFileContent w s of Inl err \<Rightarrow> ([], None) | Inr msg \<Rightarrow> (msg, None))"

text \<open>
  The loop of \<open>hasUncommittedFiles\<close> over the unstaged changes, collecting those whose
  action is not \<open>Delete\<close>.
\<close>

fun withoutDeletes :: "('s, 'e, 'ch, 'mc) env \<Rightarrow> 'ch list \<Rightarrow> 'ch list \<Rightarrow> 'e + 'ch list" where
  "withoutDeletes w withoutDel [] = Inr withoutDel"
| "withoutDeletes w withoutDel (c # cs) =
     (case ch_Action w c of Inl err \<Rightarrow> Inl err
      | Inr a \<Rightarrow> withoutDeletes w (if a \<noteq> merkletrie_Delete then withoutDel @ [c] else withoutDel) cs)"

definition hasUncommittedFiles :: "('s, 'e, 'ch, 'mc) env \<Rightarrow> string \<Rightarrow> 's \<Rightarrow> bool \<times> 'e option" where
  "hasUncommittedFiles w commit s =
     (case w_diffCommitWithStaging w commit False s of Inl err \<Rightarrow> (False, Some err)
      | Inr stagedChanges \<Rightarrow>
          if length stagedChanges \<noteq> 0 then (True, None)
          else (case w_diffStagingWithWorktree w False s of Inl err \<Rightarrow> (False, Some err)
                | Inr unstagedChanges \<Rightarrow>
                    (case withoutDeletes w [] unstagedChanges of Inl err \<Rightarrow> (False, Some err)
                     | Inr withoutDel \<Rightarrow>
                         if length withoutDel \<noteq> 0 then (True, None) else (False, None))))"

text \<open>
  \<open>logMergeConflicts\<close> ranges over a Go map; the model takes the entries as the list
  of them in the order of the iteration. The two string builders are the pair \<open>(b, fb)\<close>.
\<close>

fun logEntries :: "string \<Rightarrow> (string \<times> mergingResult) list \<Rightarrow> bool \<times> string \<times> string
                   \<Rightarrow> bool \<times> string \<times> string" where
  "logEntries theirs [] acc = acc"
| "logEntries theirs ((path, r) # rest) (hasConflicts, b, fb) =
     logEntries theirs rest
       (case mr_diffType r of
          mergeDiffBothAdded \<Rightarrow>
            (True,
             b @ ''Auto-merging '' @ path @ [newline]
               @ ''CONFLICT (add/add): Merge conflict in '' @ path @ [newline],
             fb @ [CHR ''#'', CHR 0x09] @ path @ [newline])
        | mergeDiffBothDeleted \<Rightarrow> (hasConflicts, b, fb)
        | mergeDiffBothModifiedWithConflicts \<Rightarrow>
            (True,
             b @ ''Auto-merging '' @ path @ [newline]
               @ ''CONFLICT (content): Merge conflict in '' @ path @ [newline],
             fb @ [CHR ''#'', CHR 0x09] @ path @ [newline])
        | mergeDiffBothModifiedWithoutConflicts \<Rightarrow> (hasConflicts, b, fb)
        | mergeDiffModifiedDeleted \<Rightarrow>
            (True,
             b @ ''(modify/delete): '' @ path @ '' modified in HEAD and deleted in '' @ theirs
               @ ''.'' @ [newline],
             fb @ [CHR ''#'', CHR 0x09] @ path @ [newline])
        | mergeDiffDeletedModified \<Rightarrow>
            (True,
             b @ ''(delete/modify): '' @ path @ '' deleted in HEAD and modified in '' @ theirs
               @ ''.'' @ [newline],
             fb @ [CHR ''#'', CHR 0x09] @ path @ [newline])
        | mergeDiffNoConflict \<Rightarrow> (hasConflicts, b, fb))"

definition cleanMergeMsg :: "string \<Rightarrow> string" where
  "cleanMergeMsg theirs =
     ''Merge branch '' @ [CHR 0x27] @ theirs @ [CHR 0x27, newline, newline]
     @ ''# Please enter a commit message to explain why this merge is necessary,'' @ [newline]
     @ ''# especially if it merges an updated upstream into a topic branch.'' @ [newline]
     @ ''#'' @ [newline]
     @ ''# Lines starting with '' @ [CHR 0x27, CHR ''#'', CHR 0x27]
     @ '' will be ignored, and an empty message aborts'' @ [newline]
     @ ''# the commit.''"

definition logMergeConflicts ::
  "('s, 'e, 'ch, 'mc) env \<Rightarrow> (string \<times> mergingResult) list \<Rightarrow> string \<Rightarrow> 's
   \<Rightarrow> (bool \<times> string \<times> 'e option) \<times> 's" where
  "logMergeConflicts w mergeResult theirsBranch s =
     (let theirs = rn_Short w theirsBranch;
          fb0 = ''Merge branch '' @ [CHR 0x27] @ theirs @ [CHR 0x27, newline, newline]
                @ ''# Conflicts:'' @ [newline]
      in case logEntries theirs mergeResult (False, [], fb0) of
           (hasConflicts, b, fb) \<Rightarrow>
             if hasConflicts then
               (case s_SetMergeMsg w fb s of
                  (Some err, s1) \<Rightarrow> ((False, [], Some err), s1)
                | (None, s1) \<Rightarrow>
                    ((hasConflicts,
                      b @ ''Automatic merge failed; fix conflicts and then commit the result.''
                        @ [newline],
                      None), s1))
             else
               (case s_SetMergeMsg w (cleanMergeMsg theirs) s of
                  (Some err, s1) \<Rightarrow> ((False, [], Some err), s1)
                | (None, s1) \<Rightarrow>
                    ((hasConflicts, ''Create merge commit to continue merge process'', None), s1)))"

text \<open>
  \<open>nonFastForwardMerge\<close>. The result of \<open>hasUncommittedFiles\<close> is bound to
  \<open>(hasUncommittedFiles, err)\<close> and only the flag is looked at; the next assignment to
  \<open>err\<close> overwrites the error.
\<close>

definition nonFastForwardMerge ::
  "('s, 'e, 'ch, 'mc) env \<Rightarrow> string \<Rightarrow> string \<Rightarrow> string \<Rightarrow> 's \<Rightarrow> (string \<times> 'e error option) \<times> 's" where
  "nonFastForwardMerge w ours theirs theirsBranch s =
     (case r_MergeHead w s of Inl err \<Rightarrow> (([], Some (Other err)), s)
      | Inr mh \<Rightarrow>
     if mh \<noteq> None then (([], Some ErrMergeInProgress), s)
     else (case hasUncommittedFiles w ours s of
       (uncommitted, err) \<Rightarrow>
     if uncommitted then (([], Some ErrHasUncommittedFiles), s)
     else (case object_GetCommit w ours s of Inl err \<Rightarrow> (([], Some (Other err)), s)
      | Inr oursC \<Rightarrow>
     (case object_GetCommit w theirs s of Inl err \<Rightarrow> (([], Some (Other err)), s)
      | Inr theirsC \<Rightarrow>
     (case w_computeParent w oursC theirsC s of (Inl err, s1) \<Rightarrow> (([], Some (Other err)), s1)
      | (Inr p, s1) \<Rightarrow>
     (case s_SetReference w (NewHashReference MERGE_HEAD theirs) s1 of
        (Some err, s2) \<Rightarrow> (([], Some (Other err)), s2)
      | (None, s2) \<Rightarrow>
     (case s_SetReference w (NewHashReference ORIG_HEAD ours) s2 of
        (Some err, s3) \<Rightarrow> (([], Some (Other err)), s3)
      | (None, s3) \<Rightarrow>
     (case w_mergeCommits w p oursC theirsC 0 s3 of (Inl err, s4) \<Rightarrow> (([], Some (Other err)), s4)
      | (Inr mergeRes, s4) \<Rightarrow>
     (case logMergeConflicts w mergeRes theirsBranch s4 of
        ((hasMergeConflicts, mergeMsg, Some err), s5) \<Rightarrow> (([], Some (Other err)), s5)
      | ((hasMergeConflicts, mergeMsg, None), s5) \<Rightarrow>
          if hasMergeConflicts then ((mergeMsg, Some ErrMergeWithConflicts), s5)
          else ((mergeMsg, Some ErrMergeCommitNeeded), s5))))))))))"

definition Merge :: "('s, 'e, 'ch, 'mc) env \<Rightarrow> string \<Rightarrow> 's \<Rightarrow> (string \<times> 'e error option) \<times> 's" where
  "Merge w theirsBranch s =
     (case r_Head w s of Inl err \<Rightarrow> (([], Some (Other err)), s)
      | Inr head \<Rightarrow>
     (case head of None \<Rightarrow> (([], Some ErrHeadNotFound), s)
      | Some headRef \<Rightarrow>
     (let oursHash = rf_Hash headRef;
          theirsRefName = NewBranchReferenceName theirsBranch
      in case s_Reference w theirsRefName s of Inl err \<Rightarrow> (([], Some (Other err)), s)
      | Inr theirsRef \<Rightarrow>
     (let theirsHash = rf_Hash theirsRef
      in case isFastForward w oursHash theirsHash s of Inl err \<Rightarrow> (([], Some (Other err)), s)
      | Inr ff \<Rightarrow>
     if ff then
       (case updateHEAD w theirsHash s of (Some err, s1) \<Rightarrow> (([], Some (Other err)), s1)
        | (None, s1) \<Rightarrow>
       (case w_Reset w \<lparr>ro_Commit = theirsHash, ro_Mode = HardReset\<rparr> s1 of
          (Some err, s2) \<Rightarrow> (([], Some (Other err)), s2)
        | (None, s2) \<Rightarrow> (([], None), s2)))
     else
       (case nonFastForwardMerge w oursHash theirsHash theirsRefName s of
          ((mergeMsg, Some err), s1) \<Rightarrow> ((mergeMsg, Some err), s1)
        | ((mergeMsg, None), s1) \<Rightarrow> (([], None), s1))))))"

section \<open>Ancestors and merge bases, as the specification states them\<close>

text \<open>
  The commits reachable from a hash in at most \<open>n\<close> parent steps, the hash itself among
  them; the common ancestors of two hashes; and the best ones: those that are not a
  strict ancestor of another common ancestor. On a storage of \<open>n\<close> commits without a
  cycle, \<open>n\<close> steps reach every ancestor.
\<close>

fun ancestorsWithin :: "storer \<Rightarrow> nat \<Rightarrow> string \<Rightarrow> string list" where
  "ancestorsWithin s 0 h = [h]"
| "ancestorsWithin s (Suc n) h =
     h # (case s h of None \<Rightarrow> []
          | Some c \<Rightarrow> concat (map (ancestorsWithin s n) (ParentHashes c)))"

definition spec_commonAncestors :: "storer \<Rightarrow> nat \<Rightarrow> string \<Rightarrow> string \<Rightarrow> string list" where
  "spec_commonAncestors s n h1 h2 =
     filter (\<lambda>h. h \<in> set (ancestorsWithin s n h2)) (remdups (ancestorsWithin s n h1))"

definition spec_bestCommonAncestors :: "storer \<Rightarrow> nat \<Rightarrow> string \<Rightarrow> string \<Rightarrow> string list" where
  "spec_bestCommonAncestors s n h1 h2 =
     (let ca = spec_commonAncestors s n h1 h2
      in filter (\<lambda>h. \<not> list_ex (\<lambda>g. g \<noteq> h \<and> h \<in> set (ancestorsWithin s n g)) ca) ca)"

section \<open>An in-memory repository\<close>

text \<open>
  A small repository for the concrete runs below. Its state holds the references
  (\<open>HEAD\<close>, the branches, \<open>MERGE_HEAD\<close> and \<open>ORIG_HEAD\<close> among them, the entry written
  last first), \<open>MERGE_MSG\<close>, the commits, the commit whose tree the index and the
  working tree were last reset to, the paths staged on top of it and the changes of
  the working tree on top of the index. A table of faults names the collaborator calls
  that fail, each with the error it returns.
\<close>

record repo =
  rp_refs :: "(string \<times> Reference) list"
  rp_mergeMsg :: "string option"
  rp_objects :: "(string \<times> commit) list"
  rp_checkout :: "string option"
  rp_staged :: "string list"
  rp_unstaged :: "(string \<times> merkletrie_Action) list"

definition readOr :: "(string \<rightharpoonup> string) \<Rightarrow> string \<Rightarrow> string + 'a \<Rightarrow> string + 'a" where
  "readOr faults call r = (case faults call of Some err \<Rightarrow> Inl err | None \<Rightarrow> r)"

definition writeOr :: "(string \<rightharpoonup> string) \<Rightarrow> string \<Rightarrow> repo \<Rightarrow> repo \<Rightarrow> string option \<times> repo" where
  "writeOr faults call s s' = (case faults call of Some err \<Rightarrow> (Some err, s) | None \<Rightarrow> (None, s'))"

text \<open>
  Modelled from the spec: the resolution of a reference name to the reference that holds
  its hash (section 6, "resolve a reference name to a hash"), which is code of the
  reference storage and not among the source files. A reference that holds no hash is
  followed to the reference it points to, for as many steps as the first argument
  allows.
\<close>

fun resolveReference :: "nat \<Rightarrow> (string \<times> Reference) list \<Rightarrow> string \<Rightarrow> Reference option" where
  "resolveReference 0 refs name = None"
| "resolveReference (Suc n) refs name =
     (case map_of refs name of None \<Rightarrow> None
      | Some r \<Rightarrow> if rf_Type r = HashReference then Some r
                  else resolveReference n refs (rf_Target r))"

text \<open>
  Modelled from the spec: the collaborators of sections 4.E and 6 whose code is not among
  the source files, which are \<open>Head\<close> and \<open>MergeHead\<close> of the repository, \<open>Reference\<close>,
  \<open>SetReference\<close>, \<open>SetMergeMsg\<close>, \<open>MergeMsg\<close> and \<open>MergeMsgFileContent\<close> of the storage,
  \<open>object.GetCommit\<close>, \<open>isFastForward\<close>, \<open>Reset\<close>, \<open>diffCommitWithStaging\<close>,
  \<open>diffStagingWithWorktree\<close>, \<open>Action\<close> of a change and \<open>Short\<close> of a reference name.
  \<open>Head\<close> resolves \<open>HEAD\<close> and answers no reference when it does not resolve;
  \<open>Reference\<close> and \<open>MergeHead\<close> look a name up; \<open>SetReference\<close> stores a reference
  under its name; \<open>isFastForward\<close> is "is ours an ancestor of theirs"; a hard reset
  sets the index and the working tree to the commit; the staged changes are the
  difference of \<open>HEAD\<close> and the index, the unstaged ones that of the index and the
  working tree.

  \<open>computeParent\<close> and \<open>mergeCommits\<close> are functions of the source that this theory does
  not translate, so the repository does not provide them: they are the two last
  arguments, and a statement about a run says which ones it is about.
\<close>

definition memEnv ::
  "(string \<rightharpoonup> string)
   \<Rightarrow> (commit \<Rightarrow> commit \<Rightarrow> repo \<Rightarrow> (string + 'mc) \<times> repo)
   \<Rightarrow> ('mc \<Rightarrow> commit \<Rightarrow> commit \<Rightarrow> int \<Rightarrow> repo \<Rightarrow> (string + (string \<times> mergingResult) list) \<times> repo)
   \<Rightarrow> (repo, string, string \<times> merkletrie_Action, 'mc) env" where
  "memEnv faults computeParent mergeCommits =
     \<lparr>r_Head = (\<lambda>s. readOr faults ''Head''
         (Inr (resolveReference (Suc (length (rp_refs s))) (rp_refs s) HEAD))),
      s_Reference = (\<lambda>name s. readOr faults ''Reference''
         (case map_of (rp_refs s) name of None \<Rightarrow> Inl ''reference not found''
          | Some r \<Rightarrow> Inr r)),
      isFastForward = (\<lambda>old new s. readOr faults ''isFastForward''
         (Inr (old \<in> set (ancestorsWithin (map_of (rp_objects s)) (length (rp_objects s)) new)))),
      w_Reset = (\<lambda>opts s. writeOr faults ''Reset'' s
         (s\<lparr>rp_checkout := Some (ro_Commit opts), rp_staged := [], rp_unstaged := []\<rparr>)),
      r_MergeHead = (\<lambda>s. readOr faults ''MergeHead'' (Inr (map_of (rp_refs s) MERGE_HEAD))),
      w_diffCommitWithStaging = (\<lambda>c reverse s. readOr faults ''diffCommitWithStaging''
         (Inr (map (\<lambda>path. (path, merkletrie_Modify)) (rp_staged s)))),
      w_diffStagingWithWorktree = (\<lambda>reverse s. readOr faults ''diffStagingWithWorktree''
         (Inr (rp_unstaged s))),
      ch_Action = (\<lambda>c. readOr faults ''Action'' (Inr (snd c))),
      object_GetCommit = (\<lambda>h s. readOr faults ''GetCommit''
         (case map_of (rp_objects s) h of None \<Rightarrow> Inl ''object not found''
          | Some c \<Rightarrow> Inr c)),
      w_computeParent = computeParent,
      s_SetReference = (\<lambda>ref s. writeOr faults ''SetReference'' s
         (s\<lparr>rp_refs := (rf_Name ref, ref) # rp_refs s\<rparr>)),
      w_mergeCommits = mergeCommits,
      s_SetMergeMsg = (\<lambda>msg s. writeOr faults ''SetMergeMsg'' s (s\<lparr>rp_mergeMsg := Some msg\<rparr>)),
      s_MergeMsg = (\<lambda>s. readOr faults ''MergeMsg''
         (case rp_mergeMsg s of None \<Rightarrow> Inl ''MERGE_MSG not found'' | Some m \<Rightarrow> Inr m)),
      s_MergeMsgFileContent = (\<lambda>s. readOr faults ''MergeMsgFileContent''
         (case rp_mergeMsg s of None \<Rightarrow> Inl ''MERGE_MSG not found'' | Some m \<Rightarrow> Inr m)),
      rn_Short = (\<lambda>name. if take 11 name = ''refs/heads/'' then drop 11 name else name)\<rparr>"

text \<open>
  Three histories. In \<open>linearRepo\<close>, \<open>HEAD\<close> points to the branch \<open>master\<close> at \<open>R\<close>, and
  \<open>topic\<close> is one commit ahead. In \<open>forkedRepo\<close>, \<open>master\<close> and \<open>topic\<close> are two
  children of \<open>R\<close>. In \<open>sameSecond\<close>, the commit \<open>B\<close> is a child of \<open>A\<close> authored in
  the same second.
\<close>

definition commitR :: commit where
  "commitR = \<lparr>Hash = ''R'', ParentHashes = [], AuthorWhen = 1\<rparr>"

definition commitX :: commit where
  "commitX = \<lparr>Hash = ''X'', ParentHashes = [''R''], AuthorWhen = 2\<rparr>"

definition commitY :: commit where
  "commitY = \<lparr>Hash = ''Y'', ParentHashes = [''R''], AuthorWhen = 3\<rparr>"

definition headOnMaster :: Reference where
  "headOnMaster = \<lparr>rf_Type = SymbolicReference, rf_Name = ''HEAD'', rf_Hash = [],
                    rf_Target = ''refs/heads/master''\<rparr>"

definition linearRepo :: repo where
  "linearRepo =
     \<lparr>rp_refs = [(''HEAD'', headOnMaster),
                 (''refs/heads/master'', NewHashReference ''refs/heads/master'' ''R''),
                 (''refs/heads/topic'', NewHashReference ''refs/heads/topic'' ''X'')],
      rp_mergeMsg = None,
      rp_objects = [(''R'', commitR), (''X'', commitX)],
      rp_checkout = Some ''R'', rp_staged = [], rp_unstaged = []\<rparr>"

definition forkedRepo :: repo where
  "forkedRepo =
     \<lparr>rp_refs = [(''HEAD'', headOnMaster),
                 (''refs/heads/master'', NewHashReference ''refs/heads/master'' ''X''),
                 (''refs/heads/topic'', NewHashReference ''refs/heads/topic'' ''Y'')],
      rp_mergeMsg = None,
      rp_objects = [(''R'', commitR), (''X'', commitX), (''Y'', commitY)],
      rp_checkout = Some ''X'', rp_staged = [], rp_unstaged = []\<rparr>"

definition commitA :: commit where
  "commitA = \<lparr>Hash = ''A'', ParentHashes = [], AuthorWhen = 100\<rparr>"

definition commitB :: commit where
  "commitB = \<lparr>Hash = ''B'', ParentHashes = [''A''], AuthorWhen = 100\<rparr>"

definition sameSecond :: storer where
  "sameSecond = [''A'' \<mapsto> commitA, ''B'' \<mapsto> commitB]"

section \<open>Edit scripts\<close>

text \<open>
  The number of ops of a script that are not \<open>Equal\<close>, and the edit distance the
  specification compares it with: the least number of single-line insertions and
  deletions that turn one sequence of lines into the other, by the usual recursion on the
  two sequences.
\<close>

definition nonEqualOps :: "fileDiff list \<Rightarrow> nat" where
  "nonEqualOps script = length (filter (\<lambda>op. diffType op \<noteq> fileDiffEql) script)"

fun spec_editDistance :: "string list \<Rightarrow> string list \<Rightarrow> nat" where
  "spec_editDistance [] ys = length ys"
| "spec_editDistance (x # xs) [] = Suc (length xs)"
| "spec_editDistance (x # xs) (y # ys) =
     (if x = y then spec_editDistance xs ys
      else Suc (min (spec_editDistance xs (y # ys)) (spec_editDistance (x # xs) ys)))"

text \<open>
  Applying a script to a sequence of lines, as the specification words it: an
  \<open>Insert\<close> emits its \<open>lineB\<close>; a \<open>Delete\<close> consumes the next line; an \<open>Equal\<close>
  consumes the next line and emits its \<open>lineB\<close>. The application here is stricter than
  those words on two points: the line consumed must be the \<open>lineA\<close> of the op, and the
  two lines of an \<open>Equal\<close> must have the same text. \<open>applyOps\<close> returns the lines
  emitted and the lines left over; \<open>applyScript\<close> succeeds when no line is left over.
\<close>

fun applyOps :: "fileDiff list \<Rightarrow> fileLine list \<Rightarrow> (fileLine list \<times> fileLine list) option" where
  "applyOps [] ls = Some ([], ls)"
| "applyOps (op # ops) ls =
     (case diffType op of
        fileDiffIns \<Rightarrow>
          (case lineB op of None \<Rightarrow> None
           | Some lb \<Rightarrow> (case applyOps ops ls of None \<Rightarrow> None
                         | Some (out, rest) \<Rightarrow> Some (lb # out, rest)))
      | fileDiffDel \<Rightarrow>
          (case ls of [] \<Rightarrow> None
           | l # ls' \<Rightarrow> if lineA op = Some l then applyOps ops ls' else None)
      | fileDiffEql \<Rightarrow>
          (case ls of [] \<Rightarrow> None
           | l # ls' \<Rightarrow>
               (case lineB op of None \<Rightarrow> None
                | Some lb \<Rightarrow>
                    if lineA op = Some l \<and> linetext l = linetext lb
                    then (case applyOps ops ls' of None \<Rightarrow> None
                          | Some (out, rest) \<Rightarrow> Some (lb # out, rest))
                    else None)))"

definition applyScript :: "fileDiff list \<Rightarrow> fileLine list \<Rightarrow> fileLine list option" where
  "applyScript script ls =
     (case applyOps script ls of Some (out, []) \<Rightarrow> Some out | _ \<Rightarrow> None)"

definition eqlOp :: "fileLine \<Rightarrow> fileLine \<Rightarrow> fileDiff" where
  "eqlOp la lb = \<lparr>lineA = Some la, lineB = Some lb, diffType = fileDiffEql\<rparr>"

definition insOp :: "fileLine \<Rightarrow> fileDiff" where
  "insOp lb = \<lparr>lineA = None, lineB = Some lb, diffType = fileDiffIns\<rparr>"

definition delOp :: "fileLine \<Rightarrow> fileDiff" where
  "delOp la = \<lparr>lineA = Some la, lineB = None, diffType = fileDiffDel\<rparr>"

text \<open>Two small inputs for the concrete runs of the differ.\<close>

definition oneLine :: "fileLine list" where
  "oneLine = getFileLines [''x'']"

definition twoLines :: "fileLine list" where
  "twoLines = getFileLines [''x'', ''y'']"

section \<open>The recurrence that the differ computes\<close>

text \<open>
  The definitions of this section are not in the source: they state what the loops of
  \<open>GetShortestPath\<close> compute, for the proofs below. \<open>snakeX\<close> is the \<open>x\<close> at which the
  snake loop stops. \<open>fr md (Suc d) k\<close> is the value that round \<open>d\<close> stores for diagonal
  \<open>k\<close>, by the recurrence of the inner loop on the values of the round before;
  \<open>fr md 0\<close> is the initial vector of zeros. \<open>onDiag d k\<close> says that round \<open>d\<close> visits
  diagonal \<open>k\<close>, and \<open>isEnd\<close> that the round returns there.
\<close>

abbreviation nA :: "myersDifferer \<Rightarrow> int" where
  "nA md \<equiv> int (length (md_a md))"

abbreviation nB :: "myersDifferer \<Rightarrow> int" where
  "nB md \<equiv> int (length (md_b md))"

abbreviation nN :: "myersDifferer \<Rightarrow> int" where
  "nN md \<equiv> nA md + nB md"

definition snakeX :: "myersDifferer \<Rightarrow> int \<Rightarrow> int \<Rightarrow> int" where
  "snakeX md x y = (case snake md x y of Inr (x', y') \<Rightarrow> x' | Inl e \<Rightarrow> x)"

fun fr :: "myersDifferer \<Rightarrow> nat \<Rightarrow> int \<Rightarrow> int" where
  "fr md 0 k = 0"
| "fr md (Suc r) k =
     (let x0 = (if k = - int r \<or> (k \<noteq> int r \<and> fr md r (k - 1) < fr md r (k + 1))
                then fr md r (k + 1) else fr md r (k - 1) + 1)
      in snakeX md x0 (x0 - k))"

declare fr.simps(2) [simp del]

definition startX :: "myersDifferer \<Rightarrow> nat \<Rightarrow> int \<Rightarrow> int" where
  "startX md r k = (if k = - int r \<or> (k \<noteq> int r \<and> fr md r (k - 1) < fr md r (k + 1))
                then fr md r (k + 1) else fr md r (k - 1) + 1)"

definition goesDown :: "myersDifferer \<Rightarrow> nat \<Rightarrow> int \<Rightarrow> bool" where
  "goesDown md r k = (k = - int r \<or> (k \<noteq> int r \<and> fr md r (k - 1) < fr md r (k + 1)))"

definition onDiag :: "nat \<Rightarrow> int \<Rightarrow> bool" where
  "onDiag r k = (- int r \<le> k \<and> k \<le> int r \<and> even (int r - k))"

definition isEnd :: "myersDifferer \<Rightarrow> nat \<Rightarrow> int \<Rightarrow> bool" where
  "isEnd md r k = (nA md \<le> fr md (Suc r) k \<and> nB md \<le> fr md (Suc r) k - k)"

text \<open>
  The vector \<open>v\<close> read at diagonal \<open>k\<close>; the diagonals that round \<open>d\<close> reads; a vector
  that holds, on those diagonals, the values of the round before (which is what every
  element of the trace has to hold for \<open>Backtrack\<close>); the invariant of the inner loop;
  and a trace as \<open>GetShortestPath\<close> returns it, ending in the first round that has an end.
\<close>

definition vAt :: "myersDifferer \<Rightarrow> int list \<Rightarrow> int \<Rightarrow> int" where
  "vAt md v k = v ! nat (k + nN md)"

definition readable :: "nat \<Rightarrow> int \<Rightarrow> bool" where
  "readable d k = ((d = 0 \<and> k = 1) \<or> (\<exists>d'. d = Suc d' \<and> onDiag d' k))"

definition snapshot :: "myersDifferer \<Rightarrow> nat \<Rightarrow> int list \<Rightarrow> bool" where
  "snapshot md d v = (int (length v) = 2 * nN md + 1
      \<and> (\<forall>k. readable d k \<longrightarrow> vAt md v k = fr md d k))"

definition roundInv :: "myersDifferer \<Rightarrow> nat \<Rightarrow> int \<Rightarrow> int list \<Rightarrow> bool" where
  "roundInv md d k v = (snapshot md d v
      \<and> (\<forall>k'. onDiag d k' \<and> k' < k \<longrightarrow> vAt md v k' = fr md (Suc d) k' \<and> \<not> isEnd md d k'))"

definition goodTrace :: "myersDifferer \<Rightarrow> nat \<Rightarrow> int list list \<Rightarrow> bool" where
  "goodTrace md D tr = (length tr = Suc D \<and> int D \<le> nN md
      \<and> (\<forall>d. d \<le> D \<longrightarrow> snapshot md d (tr ! d))
      \<and> (\<exists>kt. onDiag D kt \<and> isEnd md D kt)
      \<and> (\<forall>r' k'. r' < D \<longrightarrow> onDiag r' k' \<longrightarrow> \<not> isEnd md r' k'))"

text \<open>
  What the inner loop of \<open>Backtrack\<close> sends for \<open>c\<close> diagonal steps back from
  \<open>(x, y)\<close>, and the ops that \<open>Diff\<close> makes of them.
\<close>

fun diagEls :: "int \<Rightarrow> int \<Rightarrow> nat \<Rightarrow> backtrackEl list" where
  "diagEls x y 0 = []"
| "diagEls x y (Suc c) =
     \<lparr>prevX = x - 1, prevY = y - 1, el_x = x, el_y = y\<rparr> # diagEls (x - 1) (y - 1) c"

fun diagOps :: "myersDifferer \<Rightarrow> int \<Rightarrow> int \<Rightarrow> nat \<Rightarrow> fileDiff list" where
  "diagOps md x y 0 = []"
| "diagOps md x y (Suc c) =
     eqlOp (md_a md ! nat (x - 1)) (md_b md ! nat (y - 1)) # diagOps md (x - 1) (y - 1) c"

section \<open>Properties of the differ\<close>

lemma GetShortestPath_empty:
  "GetShortestPath \<lparr>md_a = [], md_b = []\<rparr> = Inl IndexOutOfRange"
  by (simp add: GetShortestPath_def dLoop.simps kLoop.simps kStep_def takesDown_def
      getIndexV_def slice_at_def)

lemma Diff_of_empty_inputs: "Diff (NewMyersDifferer [] []) = Inl IndexOutOfRange"
  by (simp add: Diff_def NewMyersDifferer_def GetShortestPath_empty)

lemma diffFiles_empty: "diffFiles (getFileLines []) (getFileLines []) = Inl IndexOutOfRange"
  by (simp add: diffFiles_def getFileLines_def Diff_of_empty_inputs)

text \<open>
  C7. For two empty inputs the vector \<open>v\<close> has length \<open>2 * 0 + 1 = 1\<close>, and the first
  pass of \<open>GetShortestPath\<close> (\<open>d = 0\<close>, \<open>k = 0 = -d\<close>) reads \<open>v[k + 1 + max] = v[1]\<close>:
  the read is out of range, so \<open>GetShortestPath\<close> and with it \<open>Diff\<close> panic instead of
  returning an empty script.
\<close>

theorem C7_Diff_empty_inputs_panics:
  "GetShortestPath (NewMyersDifferer [] []) = Inl IndexOutOfRange
   \<and> Diff (NewMyersDifferer [] []) = Inl IndexOutOfRange"
  by (simp add: Diff_def NewMyersDifferer_def GetShortestPath_empty)

text \<open>
  C5. The edit distance of two empty sequences is \<open>0\<close>, but \<open>Diff\<close> returns no script
  for them at all, so there is no script whose count of non-Equal ops could equal it.
\<close>

theorem C5_no_script_for_empty_inputs:
  "spec_editDistance [] [] = 0
   \<and> (\<forall>script. Diff (NewMyersDifferer [] []) \<noteq> Inr script)"
  by (simp add: Diff_of_empty_inputs)

section \<open>Properties of the three-way merger\<close>

text \<open>
  C3. With an empty base and two empty, identical sides, \<open>setup\<close> runs the differ on two
  empty sequences, which panics: the merge returns neither the lines of \<open>x\<close> nor a
  conflict count.
\<close>

theorem C3_Merge_identical_empty_sides_panics:
  "diff3_Merge [] [] [] = Some (Inl IndexOutOfRange)"
  by (simp add: diff3_Merge_def diff3_setup_def diffFiles_empty)

text \<open>
  C4. With an empty base, the unchanged side is empty too, and the differ is run on two
  empty sequences: whatever the other side is, the merge panics instead of returning it.
\<close>

theorem C4_Merge_empty_base_panics:
  "diff3_Merge [] [] y = Some (Inl IndexOutOfRange)
   \<and> (\<exists>e. diff3_Merge [] x [] = Some (Inl e))"
proof
  show "diff3_Merge [] [] y = Some (Inl IndexOutOfRange)"
    by (simp add: diff3_Merge_def diff3_setup_def diffFiles_empty)
next
  have "\<exists>e. diff3_setup [] x [] = Inl e"
    by (cases "diffFiles (getFileLines []) (getFileLines x)")
       (simp_all add: diff3_setup_def diffFiles_empty Let_def)
  then show "\<exists>e. diff3_Merge [] x [] = Some (Inl e)"
    by (auto simp: diff3_Merge_def)
qed

section \<open>Properties of the commit graph walker\<close>

text \<open>
  C2. In the history \<open>sameSecond\<close> the commit \<open>A\<close> is the parent of \<open>B\<close>, so \<open>A\<close> is the
  one best common ancestor of \<open>A\<close> and \<open>B\<close>. The walk pops \<open>A\<close> first (flag
  \<open>Parent1\<close>), then \<open>B\<close>, which pushes a new queue element for \<open>A\<close> carrying only
  \<open>Parent2\<close>: the flags of a popped element are gone with it. No element ever
  carries both flags, and the walk returns no commit.
\<close>

theorem C2_getCommonParents_misses_parent:
  "getCommonParents sameSecond commitA commitB = Some (Inr [])
   \<and> spec_bestCommonAncestors sameSecond 2 (Hash commitA) (Hash commitB) = [Hash commitA]"
  by code_simp

section \<open>Properties of the merge orchestrator\<close>

text \<open>
  C10. \<open>MergeMsg\<close> and \<open>MergeMsgFileContent\<close> return a nil error in every state, and the
  empty string with it whenever the call to the storer fails.
\<close>

theorem C10_MergeMsg_hides_storer_errors:
  "snd (MergeMsg w s) = None \<and> snd (MergeMsgFileContent w s) = None
   \<and> (\<forall>err. s_MergeMsg w s = Inl err \<longrightarrow> MergeMsg w s = ([], None))
   \<and> (\<forall>err. s_MergeMsgFileContent w s = Inl err \<longrightarrow> MergeMsgFileContent w s = ([], None))"
  by (auto simp: MergeMsg_def MergeMsgFileContent_def split: sum.splits)

theorem C10_witness:
  "s_MergeMsg (memEnv [''MergeMsg'' \<mapsto> ''read failed'']
        (\<lambda>oldC newC s. (Inl ''not asked'', s))
        (\<lambda>(p::commit) oursC theirsC level s. (Inl ''not asked'', s))) linearRepo = Inl ''read failed''
   \<and> MergeMsg (memEnv [''MergeMsg'' \<mapsto> ''read failed'']
        (\<lambda>oldC newC s. (Inl ''not asked'', s))
        (\<lambda>(p::commit) oursC theirsC level s. (Inl ''not asked'', s))) linearRepo = ([], None)
   \<and> s_MergeMsgFileContent (memEnv Map.empty
        (\<lambda>oldC newC s. (Inl ''not asked'', s))
        (\<lambda>(p::commit) oursC theirsC level s. (Inl ''not asked'', s))) linearRepo = Inl ''MERGE_MSG not found''
   \<and> MergeMsgFileContent (memEnv Map.empty
        (\<lambda>oldC newC s. (Inl ''not asked'', s))
        (\<lambda>(p::commit) oursC theirsC level s. (Inl ''not asked'', s))) linearRepo = ([], None)"
proof -
  have a: "s_MergeMsg (memEnv [''MergeMsg'' \<mapsto> ''read failed'']
        (\<lambda>oldC newC s. (Inl ''not asked'', s))
        (\<lambda>(p::commit) oursC theirsC level s. (Inl ''not asked'', s))) linearRepo = Inl ''read failed''"
    by (simp add: memEnv_def readOr_def)
  have b: "s_MergeMsgFileContent (memEnv Map.empty
        (\<lambda>oldC newC s. (Inl ''not asked'', s))
        (\<lambda>(p::commit) oursC theirsC level s. (Inl ''not asked'', s))) linearRepo = Inl ''MERGE_MSG not found''"
    by (simp add: memEnv_def readOr_def linearRepo_def)
  from a b
    C10_MergeMsg_hides_storer_errors [of "(memEnv [''MergeMsg'' \<mapsto> ''read failed'']
        (\<lambda>oldC newC s. (Inl ''not asked'', s))
        (\<lambda>(p::commit) oursC theirsC level s. (Inl ''not asked'', s)))" linearRepo]
    C10_MergeMsg_hides_storer_errors [of "(memEnv Map.empty
        (\<lambda>oldC newC s. (Inl ''not asked'', s))
        (\<lambda>(p::commit) oursC theirsC level s. (Inl ''not asked'', s)))" linearRepo]
  show ?thesis by simp
qed

lemma nonFastForwardMerge_guard:
  "nonFastForwardMerge w ours theirs br s = ((msg, Some ErrHasUncommittedFiles), s') \<Longrightarrow> s' = s"
  unfolding nonFastForwardMerge_def
  by (auto split: sum.splits if_splits prod.splits option.splits)

lemma logMergeConflicts_same:
  assumes a: "s_SetMergeMsg w = s_SetMergeMsg w'" and b: "rn_Short w = rn_Short w'"
  shows "logMergeConflicts w mergeResult br s = logMergeConflicts w' mergeResult br s"
  unfolding logMergeConflicts_def a b by (rule refl)

lemma nonFastForwardMerge_reads_flag_only:
  assumes "r_MergeHead w s = r_MergeHead w' s"
    and "fst (hasUncommittedFiles w ours s) = fst (hasUncommittedFiles w' ours s)"
    and "object_GetCommit w = object_GetCommit w'"
    and "w_computeParent w = w_computeParent w'"
    and "s_SetReference w = s_SetReference w'"
    and "w_mergeCommits w = w_mergeCommits w'"
    and "s_SetMergeMsg w = s_SetMergeMsg w'"
    and "rn_Short w = rn_Short w'"
  shows "nonFastForwardMerge w ours theirs br s = nonFastForwardMerge w' ours theirs br s"
proof -
  obtain u e where a: "hasUncommittedFiles w ours s = (u, e)"
    by (cases "hasUncommittedFiles w ours s")
  obtain u' e' where b: "hasUncommittedFiles w' ours s = (u', e')"
    by (cases "hasUncommittedFiles w' ours s")
  from assms(2) a b have u: "u' = u" by simp
  show ?thesis
    unfolding nonFastForwardMerge_def a b u assms(1,3,4,5,6)
              logMergeConflicts_same [OF assms(7,8)]
    by (simp only: prod.case)
qed

lemma Merge_not_fast_forward:
  assumes "r_Head w s = Inr (Some headRef)"
    and "s_Reference w (NewBranchReferenceName b) s = Inr theirsRef"
    and "isFastForward w (rf_Hash headRef) (rf_Hash theirsRef) s = Inr False"
  shows "Merge w b s =
           (case nonFastForwardMerge w (rf_Hash headRef) (rf_Hash theirsRef)
                   (NewBranchReferenceName b) s of
              ((mergeMsg, Some err), s1) \<Rightarrow> ((mergeMsg, Some err), s1)
            | ((mergeMsg, None), s1) \<Rightarrow> (([], None), s1))"
  using assms by (simp add: Merge_def Let_def)








text \<open>
  C8. In \<open>forkedRepo\<close> the merge is not a fast-forward. When the computation of the
  staged changes fails, \<open>hasUncommittedFiles\<close> returns \<open>(false, err)\<close>, and
  \<open>nonFastForwardMerge\<close> looks at the flag only. So, whatever \<open>computeParent\<close> and
  \<open>mergeCommits\<close> return, the merge returns what it returns when nothing fails, and
  leaves the same state. The walker finds the one merge base \<open>R\<close>; when
  \<open>computeParent\<close> returns it and \<open>mergeCommits\<close> finds no changed path, the merge
  writes \<open>MERGE_HEAD\<close> and returns the commit-needed sentinel in place of the error of
  the collaborator.
\<close>

theorem C8_staged_diff_error_is_dropped:
  "w_diffCommitWithStaging (memEnv [''diffCommitWithStaging'' \<mapsto> ''index unreadable''] cp mc)
       ''X'' False forkedRepo = Inl ''index unreadable''
   \<and> hasUncommittedFiles (memEnv [''diffCommitWithStaging'' \<mapsto> ''index unreadable''] cp mc)
       ''X'' forkedRepo = (False, Some ''index unreadable'')
   \<and> Merge (memEnv [''diffCommitWithStaging'' \<mapsto> ''index unreadable''] cp mc) ''topic'' forkedRepo
       = Merge (memEnv Map.empty cp mc) ''topic'' forkedRepo
   \<and> getCommonParents (map_of (rp_objects forkedRepo)) commitX commitY = Some (Inr [commitR])
   \<and> snd (fst (Merge (memEnv [''diffCommitWithStaging'' \<mapsto> ''index unreadable'']
                         (\<lambda>oldC newC s. (Inr commitR, s))
                         (\<lambda>p oursC theirsC level s. (Inr [], s)))
                  ''topic'' forkedRepo)) = Some ErrMergeCommitNeeded
   \<and> map_of (rp_refs (snd (Merge (memEnv [''diffCommitWithStaging'' \<mapsto> ''index unreadable'']
                         (\<lambda>oldC newC s. (Inr commitR, s))
                         (\<lambda>p oursC theirsC level s. (Inr [], s)))
                  ''topic'' forkedRepo))) MERGE_HEAD = Some (NewHashReference MERGE_HEAD ''Y'')"
proof -
  let ?F = "[''diffCommitWithStaging'' \<mapsto> ''index unreadable'']"
  have call: "w_diffCommitWithStaging (memEnv ?F cp mc) ''X'' False forkedRepo
                = Inl ''index unreadable''"
    by (simp add: memEnv_def readOr_def)
  have guard: "hasUncommittedFiles (memEnv ?F cp mc) ''X'' forkedRepo
                 = (False, Some ''index unreadable'')"
    by (simp add: hasUncommittedFiles_def call)
  have clean: "hasUncommittedFiles (memEnv Map.empty cp mc) ''X'' forkedRepo = (False, None)"
    by (simp add: hasUncommittedFiles_def memEnv_def readOr_def forkedRepo_def)
  have rest: "nonFastForwardMerge (memEnv ?F cp mc) ''X'' ''Y'' ''refs/heads/topic'' forkedRepo
            = nonFastForwardMerge (memEnv Map.empty cp mc) ''X'' ''Y'' ''refs/heads/topic'' forkedRepo"
    by (rule nonFastForwardMerge_reads_flag_only)
       (simp_all add: guard clean, simp_all add: memEnv_def readOr_def writeOr_def)
  have pre: "Merge (memEnv F cp mc) ''topic'' forkedRepo
        = (case nonFastForwardMerge (memEnv F cp mc) ''X'' ''Y'' ''refs/heads/topic'' forkedRepo of
             ((mergeMsg, Some err), s1) \<Rightarrow> ((mergeMsg, Some err), s1)
           | ((mergeMsg, None), s1) \<Rightarrow> (([], None), s1))"
    if "F ''Head'' = None" and "F ''Reference'' = None" and "F ''isFastForward'' = None" for F
  proof -
    let ?hr = "NewHashReference ''refs/heads/master'' ''X''"
    let ?tr = "NewHashReference ''refs/heads/topic'' ''Y''"
    have h: "r_Head (memEnv F cp mc) forkedRepo = Inr (Some ?hr)"
      using that
      by (simp add: memEnv_def readOr_def forkedRepo_def headOnMaster_def HEAD_def
                    NewHashReference_def)
    have t: "s_Reference (memEnv F cp mc) (NewBranchReferenceName ''topic'') forkedRepo = Inr ?tr"
      using that
      by (simp add: memEnv_def readOr_def forkedRepo_def NewBranchReferenceName_def)
    have f: "isFastForward (memEnv F cp mc) (rf_Hash ?hr) (rf_Hash ?tr) forkedRepo = Inr False"
      using that
      by (simp add: memEnv_def readOr_def forkedRepo_def NewHashReference_def
                    commitR_def commitX_def commitY_def numeral_3_eq_3)
    from Merge_not_fast_forward [OF h t f] show ?thesis
      by (simp add: NewHashReference_def NewBranchReferenceName_def)
  qed
  have same: "Merge (memEnv ?F cp mc) ''topic'' forkedRepo
            = Merge (memEnv Map.empty cp mc) ''topic'' forkedRepo"
    by (simp add: pre rest)
  have base: "getCommonParents (map_of (rp_objects forkedRepo)) commitX commitY
                = Some (Inr [commitR])"
    by code_simp
  have run: "snd (fst (Merge (memEnv ?F
                         (\<lambda>oldC newC s. (Inr commitR, s))
                         (\<lambda>p oursC theirsC level s. (Inr [], s)))
                  ''topic'' forkedRepo)) = Some ErrMergeCommitNeeded
     \<and> map_of (rp_refs (snd (Merge (memEnv ?F
                         (\<lambda>oldC newC s. (Inr commitR, s))
                         (\<lambda>p oursC theirsC level s. (Inr [], s)))
                  ''topic'' forkedRepo))) MERGE_HEAD = Some (NewHashReference MERGE_HEAD ''Y'')"
    by code_simp
  from call guard same base run show ?thesis by simp
qed

text \<open>
  C9. If \<open>Merge\<close> returns the sentinel \<open>ErrHasUncommittedFiles\<close>, the state it leaves
  is the state it was called in: references, index, working tree, \<open>MERGE_HEAD\<close>,
  \<open>ORIG_HEAD\<close> and \<open>MERGE_MSG\<close> are untouched.
\<close>

theorem C9_uncommitted_changes_guard_writes_nothing:
  "Merge w b s = ((msg, Some ErrHasUncommittedFiles), s') \<Longrightarrow> s' = s"
  unfolding Merge_def Let_def
  by (auto split: sum.splits if_splits prod.splits option.splits
           dest: nonFastForwardMerge_guard)

theorem C9_witness:
  "Merge (memEnv Map.empty
        (\<lambda>oldC newC s. (Inl ''not asked'', s))
        (\<lambda>(p::commit) oursC theirsC level s. (Inl ''not asked'', s))) ''topic'' (forkedRepo\<lparr>rp_staged := [''f.txt'']\<rparr>)
     = (([], Some ErrHasUncommittedFiles), forkedRepo\<lparr>rp_staged := [''f.txt'']\<rparr>)"
proof -
  have run: "Merge (memEnv Map.empty
        (\<lambda>oldC newC s. (Inl ''not asked'', s))
        (\<lambda>(p::commit) oursC theirsC level s. (Inl ''not asked'', s))) ''topic'' (forkedRepo\<lparr>rp_staged := [''f.txt'']\<rparr>)
      = (([], Some ErrHasUncommittedFiles),
         snd (Merge (memEnv Map.empty
        (\<lambda>oldC newC s. (Inl ''not asked'', s))
        (\<lambda>(p::commit) oursC theirsC level s. (Inl ''not asked'', s))) ''topic'' (forkedRepo\<lparr>rp_staged := [''f.txt'']\<rparr>)))"
    by code_simp
  from C9_uncommitted_changes_guard_writes_nothing [OF run] run
  show ?thesis by simp
qed

section \<open>Correctness of the differ\<close>

subsection \<open>The snake loop\<close>

text \<open>
  From a point with non-negative coordinates the snake loop does not panic; it stays on
  its diagonal, never moves back, stays inside the grid if it starts there, and walks
  over pairs of lines with equal text only.
\<close>

lemma fr_Suc: "fr md (Suc r) k = snakeX md (startX md r k) (startX md r k - k)"
  by (simp add: startX_def Let_def fr.simps(2))

lemma snake_stop: "\<not> (x < nA md \<and> y < nB md) \<Longrightarrow> snake md x y = Inr (x, y)"
  by (subst snake.simps) auto

lemma snakeX_stop: "\<not> (x < nA md \<and> y < nB md) \<Longrightarrow> snakeX md x y = x"
  by (simp add: snakeX_def snake_stop)

lemma snake_Inr:
  "0 \<le> x \<Longrightarrow> 0 \<le> y \<Longrightarrow> snake md x y = Inr (snakeX md x y, snakeX md x y - (x - y))"
proof (induction md x y rule: snake.induct)
  case (1 md x y)
  show ?case
  proof (cases "x < nA md \<and> y < nB md")
    case False
    then show ?thesis by (simp add: snakeX_stop snake_stop)
  next
    case True
    with 1(2,3) have a: "slice_at (md_a md) x = Inr (md_a md ! nat x)"
      and b: "slice_at (md_b md) y = Inr (md_b md ! nat y)"
      by (simp_all add: slice_at_def)
    show ?thesis
    proof (cases "linetext (md_a md ! nat x) = linetext (md_b md ! nat y)")
      case False
      with True a b have "snake md x y = Inr (x, y)" by (subst snake.simps) simp
      then show ?thesis by (simp add: snakeX_def)
    next
      case eq: True
      from 1(1)[OF True a b eq] 1(2,3)
      have ih: "snake md (x + 1) (y + 1) = Inr (snakeX md (x + 1) (y + 1), snakeX md (x + 1) (y + 1) - (x - y))"
        by simp
      have unf: "snake md x y = snake md (x + 1) (y + 1)"
        using True a b eq by (subst snake.simps) simp
      have r: "snake md x y = Inr (snakeX md (x + 1) (y + 1), snakeX md (x + 1) (y + 1) - (x - y))"
        unfolding unf by (rule ih)
      then have "snakeX md x y = snakeX md (x + 1) (y + 1)"
        by (simp add: snakeX_def)
      with r show ?thesis by simp
    qed
  qed
qed

lemma snakeX_props:
  "0 \<le> x \<Longrightarrow> 0 \<le> y \<Longrightarrow>
     x \<le> snakeX md x y \<and> snakeX md x y \<le> max x (nA md)
     \<and> snakeX md x y - (x - y) \<le> max y (nB md)
     \<and> (\<forall>j. x \<le> j \<and> j < snakeX md x y \<longrightarrow>
            linetext (md_a md ! nat j) = linetext (md_b md ! nat (j - (x - y))))"
proof (induction md x y rule: snake.induct)
  case (1 md x y)
  show ?case
  proof (cases "x < nA md \<and> y < nB md")
    case False
    then have "snakeX md x y = x" by (rule snakeX_stop)
    then show ?thesis by auto
  next
    case True
    with 1(2,3) have a: "slice_at (md_a md) x = Inr (md_a md ! nat x)"
      and b: "slice_at (md_b md) y = Inr (md_b md ! nat y)"
      by (simp_all add: slice_at_def)
    show ?thesis
    proof (cases "linetext (md_a md ! nat x) = linetext (md_b md ! nat y)")
      case False
      with True a b have "snake md x y = Inr (x, y)" by (subst snake.simps) simp
      then have "snakeX md x y = x" by (simp add: snakeX_def)
      then show ?thesis by auto
    next
      case eq: True
      have unf: "snake md x y = snake md (x + 1) (y + 1)"
        using True a b eq by (subst snake.simps) simp
      have "snake md x y = Inr (snakeX md (x + 1) (y + 1), snakeX md (x + 1) (y + 1) - (x + 1 - (y + 1)))"
        unfolding unf using 1(2,3) by (intro snake_Inr) simp_all
      then have sx: "snakeX md x y = snakeX md (x + 1) (y + 1)"
        by (simp add: snakeX_def)
      from 1(1)[OF True a b eq] 1(2,3)
      have ih: "x + 1 \<le> snakeX md (x + 1) (y + 1)"
        "snakeX md (x + 1) (y + 1) \<le> max (x + 1) (nA md)"
        "snakeX md (x + 1) (y + 1) - (x - y) \<le> max (y + 1) (nB md)"
        "\<And>j. x + 1 \<le> j \<Longrightarrow> j < snakeX md (x + 1) (y + 1) \<Longrightarrow>
            linetext (md_a md ! nat j) = linetext (md_b md ! nat (j - (x - y)))"
        by auto
      have "\<And>j. x \<le> j \<Longrightarrow> j < snakeX md x y \<Longrightarrow>
            linetext (md_a md ! nat j) = linetext (md_b md ! nat (j - (x - y)))"
      proof -
        fix j assume j: "x \<le> j" "j < snakeX md x y"
        show "linetext (md_a md ! nat j) = linetext (md_b md ! nat (j - (x - y)))"
        proof (cases "j = x")
          case True
          then show ?thesis using eq by simp
        next
          case False
          with j ih(4)[of j] sx show ?thesis by simp
        qed
      qed
      with ih(1,2,3) sx True show ?thesis by auto
    qed
  qed
qed

lemma snakeX_ge: "0 \<le> x \<Longrightarrow> 0 \<le> y \<Longrightarrow> x \<le> snakeX md x y"
  using snakeX_props by blast

lemma snakeX_le_x: "0 \<le> x \<Longrightarrow> 0 \<le> y \<Longrightarrow> snakeX md x y \<le> max x (nA md)"
  using snakeX_props by blast

lemma snakeX_le_y: "0 \<le> x \<Longrightarrow> 0 \<le> y \<Longrightarrow> snakeX md x y - (x - y) \<le> max y (nB md)"
  using snakeX_props by blast

lemma snakeX_text: "0 \<le> x \<Longrightarrow> 0 \<le> y \<Longrightarrow> x \<le> j \<Longrightarrow> j < snakeX md x y \<Longrightarrow>
   linetext (md_a md ! nat j) = linetext (md_b md ! nat (j - (x - y)))"
  using snakeX_props by blast

subsection \<open>Bounds on the values of a round\<close>

text \<open>
  The values of a round have non-negative coordinates, and each is at least one step
  further than its two neighbours of the round before.
\<close>

lemma startX_down: "goesDown md r k \<Longrightarrow> startX md r k = fr md r (k + 1)"
  by (auto simp: startX_def goesDown_def)

lemma startX_right: "\<not> goesDown md r k \<Longrightarrow> startX md r k = fr md r (k - 1) + 1"
  by (auto simp: startX_def goesDown_def)

lemma onDiag_0: "onDiag 0 k \<longleftrightarrow> k = 0"
  by (auto simp: onDiag_def)

lemma onDiag_up: "onDiag (Suc r) k \<Longrightarrow> k \<noteq> int (Suc r) \<Longrightarrow> onDiag r (k + 1)"
  unfolding onDiag_def by (auto; presburger)

lemma onDiag_left: "onDiag (Suc r) k \<Longrightarrow> k \<noteq> - int (Suc r) \<Longrightarrow> onDiag r (k - 1)"
  unfolding onDiag_def by (auto; presburger)

lemma goesDown_not_top: "goesDown md (Suc r) k \<Longrightarrow> k \<noteq> int (Suc r)"
  by (auto simp: goesDown_def)

lemma not_goesDown_not_bottom: "\<not> goesDown md r k \<Longrightarrow> k \<noteq> - int r"
  by (auto simp: goesDown_def)

lemma fr_nonneg:
  "onDiag r k \<Longrightarrow> 0 \<le> startX md r k \<and> 0 \<le> startX md r k - k
      \<and> 0 \<le> fr md (Suc r) k \<and> 0 \<le> fr md (Suc r) k - k"
proof (induction r arbitrary: k)
  case 0
  then have k: "k = 0" by (simp add: onDiag_0)
  have s: "startX md 0 0 = 0" by (simp add: startX_def)
  have "0 \<le> snakeX md 0 0" using snakeX_ge[of 0 0 md] by simp
  with k s show ?case by (simp add: fr_Suc)
next
  case (Suc r)
  have st: "0 \<le> startX md (Suc r) k \<and> 0 \<le> startX md (Suc r) k - k"
  proof (cases "goesDown md (Suc r) k")
    case True
    then have "onDiag r (k + 1)" using Suc.prems goesDown_not_top onDiag_up by blast
    from Suc.IH[OF this] True show ?thesis by (simp add: startX_down)
  next
    case False
    then have "onDiag r (k - 1)" using Suc.prems not_goesDown_not_bottom onDiag_left by blast
    from Suc.IH[OF this] False show ?thesis by (simp add: startX_right)
  qed
  then have "startX md (Suc r) k \<le> fr md (Suc (Suc r)) k"
    using snakeX_ge[of "startX md (Suc r) k" "startX md (Suc r) k - k" md] by (simp add: fr_Suc)
  with st show ?case by linarith
qed

lemma startX_nonneg: "onDiag r k \<Longrightarrow> 0 \<le> startX md r k" and
  startY_nonneg: "onDiag r k \<Longrightarrow> 0 \<le> startX md r k - k" and
  fr_x_nonneg: "onDiag r k \<Longrightarrow> 0 \<le> fr md (Suc r) k" and
  fr_y_nonneg: "onDiag r k \<Longrightarrow> 0 \<le> fr md (Suc r) k - k"
  using fr_nonneg by blast+

lemma fr_ge_startX: "onDiag r k \<Longrightarrow> startX md r k \<le> fr md (Suc r) k"
  using snakeX_ge[of "startX md r k" "startX md r k - k" md] startX_nonneg startY_nonneg
  by (simp add: fr_Suc)

lemma fr_ge_left: "onDiag r k \<Longrightarrow> k \<noteq> - int r \<Longrightarrow> fr md r (k - 1) + 1 \<le> fr md (Suc r) k"
proof -
  assume a: "onDiag r k" "k \<noteq> - int r"
  have "fr md r (k - 1) + 1 \<le> startX md r k"
    using a(2) by (auto simp: startX_def)
  with fr_ge_startX[OF a(1), of md] show ?thesis by linarith
qed

lemma fr_ge_up: "onDiag r k \<Longrightarrow> k \<noteq> int r \<Longrightarrow> fr md r (k + 1) \<le> fr md (Suc r) k"
proof -
  assume a: "onDiag r k" "k \<noteq> int r"
  have "fr md r (k + 1) \<le> startX md r k"
    using a(2) by (auto simp: startX_def)
  with fr_ge_startX[OF a(1), of md] show ?thesis by linarith
qed

lemma fr_outside_x: "onDiag r k \<Longrightarrow> nA md < fr md (Suc r) k \<Longrightarrow> fr md (Suc r) k = startX md r k"
proof -
  assume a: "onDiag r k" "nA md < fr md (Suc r) k"
  have "fr md (Suc r) k \<le> max (startX md r k) (nA md)"
    using snakeX_le_x[of "startX md r k" "startX md r k - k" md] startX_nonneg[OF a(1)] startY_nonneg[OF a(1)]
    by (simp add: fr_Suc)
  with a(2) have "\<not> startX md r k < nA md" by linarith
  then show ?thesis by (simp add: fr_Suc snakeX_stop)
qed

lemma fr_outside_y: "onDiag r k \<Longrightarrow> nB md < fr md (Suc r) k - k \<Longrightarrow> fr md (Suc r) k = startX md r k"
proof -
  assume a: "onDiag r k" "nB md < fr md (Suc r) k - k"
  have "fr md (Suc r) k - k \<le> max (startX md r k - k) (nB md)"
    using snakeX_le_y[of "startX md r k" "startX md r k - k" md] startX_nonneg[OF a(1)] startY_nonneg[OF a(1)]
    by (simp add: fr_Suc)
  with a(2) have "\<not> startX md r k - k < nB md" by linarith
  then show ?thesis by (simp add: fr_Suc snakeX_stop)
qed

subsection \<open>A round can only end in the corner\<close>

text \<open>
  The values of a round may lie outside the grid: below the last line of \<open>b\<close> or to
  the right of the last line of \<open>a\<close>. A value below the grid was reached by a step
  down from the value above it, and a value to the right of the grid has the value to
  its left one round earlier. So if a round has an end that is not the corner
  \<open>(len a, len b)\<close>, the round before has an end too: the first round with an end ends
  in the corner, and round \<open>len a + len b\<close> has an end.
\<close>

lemma below_grid:
  "onDiag r k \<Longrightarrow> nB md < fr md (Suc r) k - k
     \<Longrightarrow> (\<exists>r'. r = Suc r') \<and> k \<noteq> int r \<and> fr md (Suc r) k = fr md r (k + 1)"
proof (induction r arbitrary: k)
  case 0
  then have k: "k = 0" by (simp add: onDiag_0)
  have "snakeX md 0 0 - (0 - 0) \<le> max 0 (nB md)" using snakeX_le_y[of 0 0 md] by simp
  then have "fr md (Suc 0) 0 \<le> nB md" by (simp add: fr_Suc startX_def)
  with 0 k show ?case by simp
next
  case (Suc r)
  have x: "fr md (Suc (Suc r)) k = startX md (Suc r) k"
    using Suc.prems by (rule fr_outside_y)
  show ?case
  proof (cases "goesDown md (Suc r) k")
    case True
    with x goesDown_not_top[OF True] show ?thesis by (simp add: startX_down)
  next
    case False
    then have nb: "k \<noteq> - int (Suc r)" by (rule not_goesDown_not_bottom)
    then have od: "onDiag r (k - 1)" using Suc.prems(1) onDiag_left by blast
    from x False have x': "fr md (Suc (Suc r)) k = fr md (Suc r) (k - 1) + 1"
      by (simp add: startX_right)
    with Suc.prems(2) have "nB md < fr md (Suc r) (k - 1) - (k - 1)" by simp
    from Suc.IH[OF od this] obtain r' where r': "r = Suc r'" and kt: "k - 1 \<noteq> int r"
      and eq: "fr md (Suc r) (k - 1) = fr md r k" by auto
    from kt have ktop: "k \<noteq> int (Suc r)" by simp
    with False have le: "fr md (Suc r) (k + 1) \<le> fr md (Suc r) (k - 1)"
      by (auto simp: goesDown_def)
    have od2: "onDiag r (k + 1)" using Suc.prems(1) ktop onDiag_up by blast
    have "fr md r (k + 1 - 1) + 1 \<le> fr md (Suc r) (k + 1)"
      using od2 nb by (intro fr_ge_left) simp_all
    with eq le show ?thesis by simp
  qed
qed

lemma right_of_grid:
  "onDiag r k \<Longrightarrow> nA md < fr md (Suc r) k
     \<Longrightarrow> (\<exists>r'. r = Suc r') \<and> k \<noteq> - int r \<and> fr md (Suc r) k - 1 \<le> fr md r (k - 1)"
proof (induction r arbitrary: k)
  case 0
  then have k: "k = 0" by (simp add: onDiag_0)
  have "snakeX md 0 0 \<le> max 0 (nA md)" using snakeX_le_x[of 0 0 md] by simp
  then have "fr md (Suc 0) 0 \<le> nA md" by (simp add: fr_Suc startX_def)
  with 0 k show ?case by simp
next
  case (Suc r)
  have x: "fr md (Suc (Suc r)) k = startX md (Suc r) k"
    using Suc.prems by (rule fr_outside_x)
  show ?case
  proof (cases "goesDown md (Suc r) k")
    case False
    with x not_goesDown_not_bottom[OF False] show ?thesis by (simp add: startX_right)
  next
    case True
    then have nt: "k \<noteq> int (Suc r)" by (rule goesDown_not_top)
    then have od: "onDiag r (k + 1)" using Suc.prems(1) onDiag_up by blast
    from x True have x': "fr md (Suc (Suc r)) k = fr md (Suc r) (k + 1)"
      by (simp add: startX_down)
    with Suc.prems(2) have "nA md < fr md (Suc r) (k + 1)" by simp
    from Suc.IH[OF od this] obtain r' where r': "r = Suc r'" and kb: "k + 1 \<noteq> - int r"
      and ge: "fr md (Suc r) (k + 1) - 1 \<le> fr md r k" by auto
    from kb have kbot: "k \<noteq> - int (Suc r)" by simp
    have od2: "onDiag r (k - 1)" using Suc.prems(1) kbot onDiag_left by blast
    have "fr md r (k - 1 + 1) \<le> fr md (Suc r) (k - 1)"
      using od2 nt by (intro fr_ge_up) simp_all
    with ge x' kbot show ?thesis by simp
  qed
qed

lemma end_outside_has_earlier_end:
  assumes "onDiag r k" "isEnd md r k" "fr md (Suc r) k \<noteq> nA md \<or> fr md (Suc r) k - k \<noteq> nB md"
  shows "\<exists>r' k'. r = Suc r' \<and> onDiag r' k' \<and> isEnd md r' k'"
proof (cases "nB md < fr md (Suc r) k - k")
  case True
  from below_grid[OF assms(1) True] obtain r' where r': "r = Suc r'" and kt: "k \<noteq> int r"
    and eq: "fr md (Suc r) k = fr md r (k + 1)" by auto
  have "onDiag r' (k + 1)" using assms(1) kt r' onDiag_up by blast
  moreover have "isEnd md r' (k + 1)"
    using assms(2) True eq r' by (simp add: isEnd_def)
  ultimately show ?thesis using r' by blast
next
  case False
  with assms(2,3) have big: "nA md < fr md (Suc r) k" by (auto simp: isEnd_def)
  from right_of_grid[OF assms(1) big] obtain r' where r': "r = Suc r'" and kb: "k \<noteq> - int r"
    and ge: "fr md (Suc r) k - 1 \<le> fr md r (k - 1)" by auto
  have "onDiag r' (k - 1)" using assms(1) kb r' onDiag_left by blast
  moreover have "isEnd md r' (k - 1)"
    using assms(2) big ge r' by (simp add: isEnd_def)
  ultimately show ?thesis using r' by blast
qed

lemma first_end_is_corner:
  assumes "onDiag r k" "isEnd md r k"
    and "\<And>r' k'. r' < r \<Longrightarrow> onDiag r' k' \<Longrightarrow> \<not> isEnd md r' k'"
  shows "fr md (Suc r) k = nA md \<and> k = nA md - nB md"
proof (rule ccontr)
  assume "\<not> ?thesis"
  then have "fr md (Suc r) k \<noteq> nA md \<or> fr md (Suc r) k - k \<noteq> nB md" by auto
  from end_outside_has_earlier_end[OF assms(1,2) this] assms(3) show False by blast
qed

lemma fr_progress: "onDiag r k \<Longrightarrow> int r \<le> fr md (Suc r) k + (fr md (Suc r) k - k)"
proof (induction r arbitrary: k)
  case 0
  then show ?case using fr_x_nonneg[of 0 k md] fr_y_nonneg[of 0 k md] by simp
next
  case (Suc r)
  have "int (Suc r) \<le> startX md (Suc r) k + (startX md (Suc r) k - k)"
  proof (cases "goesDown md (Suc r) k")
    case True
    then have "onDiag r (k + 1)" using Suc.prems goesDown_not_top onDiag_up by blast
    from Suc.IH[OF this] True show ?thesis by (simp add: startX_down)
  next
    case False
    then have "onDiag r (k - 1)" using Suc.prems not_goesDown_not_bottom onDiag_left by blast
    from Suc.IH[OF this] False show ?thesis by (simp add: startX_right)
  qed
  with fr_ge_startX[OF Suc.prems, of md] show ?case by linarith
qed

lemma end_exists: "onDiag (length (md_a md) + length (md_b md)) (nA md - nB md)
   \<and> isEnd md (length (md_a md) + length (md_b md)) (nA md - nB md)"
proof -
  have od: "onDiag (length (md_a md) + length (md_b md)) (nA md - nB md)"
    by (simp add: onDiag_def)
  from fr_progress[OF od, of md] show ?thesis using od by (simp add: isEnd_def)
qed

subsection \<open>The loops of GetShortestPath compute the recurrence\<close>

text \<open>
  With at least one line in the two inputs every index into \<open>v\<close> is in range; each pass
  of the inner loop stores the value of the recurrence, and the element that a round
  appends to the trace still holds, on the diagonals that \<open>Backtrack\<close> reads, the values
  of the round before.
\<close>

lemma slice_at_vAt:
  "int (length v) = 2 * nN md + 1 \<Longrightarrow> - nN md \<le> k \<Longrightarrow> k \<le> nN md
     \<Longrightarrow> slice_at v (getIndexV (nA md) (nB md) k) = Inr (vAt md v k)"
  by (simp add: slice_at_def getIndexV_def vAt_def)

lemma readable_up: "onDiag d k \<Longrightarrow> k \<noteq> int d \<or> d = 0 \<Longrightarrow> readable d (k + 1)"
  by (cases d) (auto simp: readable_def onDiag_0 dest: onDiag_up)

lemma readable_left: "onDiag d k \<Longrightarrow> k \<noteq> - int d \<Longrightarrow> readable d (k - 1)"
  by (cases d) (auto simp: readable_def onDiag_0 dest: onDiag_left)

lemma onDiag_bounds: "onDiag d k \<Longrightarrow> - int d \<le> k \<and> k \<le> int d"
  by (simp add: onDiag_def)

lemma onDiag_inner: "onDiag d k \<Longrightarrow> k \<noteq> int d \<Longrightarrow> k \<le> int d - 2"
  unfolding onDiag_def by (auto; presburger)

lemma onDiag_inner': "onDiag d k \<Longrightarrow> k \<noteq> - int d \<Longrightarrow> - int d + 2 \<le> k"
  unfolding onDiag_def by (auto; presburger)

lemma takesDown_snapshot:
  assumes sn: "snapshot md d v" and od: "onDiag d k" and dN: "int d \<le> nN md"
  shows "takesDown v (nA md) (nB md) (int d) k = Inr (goesDown md d k)"
proof (cases "k = - int d")
  case True
  then show ?thesis by (simp add: takesDown_def goesDown_def)
next
  case nb: False
  show ?thesis
  proof (cases "k = int d")
    case True
    with nb show ?thesis by (simp add: takesDown_def goesDown_def)
  next
    case nt: False
    from sn have len: "int (length v) = 2 * nN md + 1" by (simp add: snapshot_def)
    from onDiag_inner[OF od nt] onDiag_inner'[OF od nb] dN
    have b: "- nN md \<le> k - 1" "k - 1 \<le> nN md" "- nN md \<le> k + 1" "k + 1 \<le> nN md" by linarith+
    have r1: "vAt md v (k - 1) = fr md d (k - 1)"
      using sn readable_left[OF od nb] by (simp add: snapshot_def)
    have r2: "vAt md v (k + 1) = fr md d (k + 1)"
      using sn readable_up[OF od] nt by (simp add: snapshot_def)
    show ?thesis
      using nb nt slice_at_vAt[OF len b(1,2)] slice_at_vAt[OF len b(3,4)] r1 r2
      by (simp add: takesDown_def goesDown_def Let_def)
  qed
qed

lemma read_prev:
  assumes sn: "snapshot md d v" and od: "onDiag d k" and dN: "int d \<le> nN md" and N1: "1 \<le> nN md"
  shows "goesDown md d k \<Longrightarrow> slice_at v (getIndexV (nA md) (nB md) (k + 1)) = Inr (fr md d (k + 1))"
    and "\<not> goesDown md d k \<Longrightarrow> slice_at v (getIndexV (nA md) (nB md) (k - 1)) = Inr (fr md d (k - 1))"
proof -
  from sn have len: "int (length v) = 2 * nN md + 1" by (simp add: snapshot_def)
  {
    assume g: "goesDown md d k"
    have nt: "k \<noteq> int d \<or> d = 0" using g by (auto simp: goesDown_def)
    have "k + 1 \<le> nN md"
    proof (cases "d = 0")
      case True
      with od N1 show ?thesis by (simp add: onDiag_0)
    next
      case False
      with nt have "k \<noteq> int d" by simp
      from onDiag_inner[OF od this] dN show ?thesis by linarith
    qed
    moreover have "- nN md \<le> k + 1" using onDiag_bounds[OF od] dN by linarith
    moreover have "vAt md v (k + 1) = fr md d (k + 1)"
      using sn readable_up[OF od nt] by (simp add: snapshot_def)
    ultimately show "slice_at v (getIndexV (nA md) (nB md) (k + 1)) = Inr (fr md d (k + 1))"
      using slice_at_vAt[OF len, of "k + 1"] by simp
  }
  {
    assume g: "\<not> goesDown md d k"
    then have nb: "k \<noteq> - int d" by (rule not_goesDown_not_bottom)
    from onDiag_inner'[OF od nb] onDiag_bounds[OF od] dN
    have "- nN md \<le> k - 1" "k - 1 \<le> nN md" by linarith+
    moreover have "vAt md v (k - 1) = fr md d (k - 1)"
      using sn readable_left[OF od nb] by (simp add: snapshot_def)
    ultimately show "slice_at v (getIndexV (nA md) (nB md) (k - 1)) = Inr (fr md d (k - 1))"
      using slice_at_vAt[OF len, of "k - 1"] by simp
  }
qed

lemma kStep_snapshot:
  assumes sn: "snapshot md d v" and od: "onDiag d k" and dN: "int d \<le> nN md" and N1: "1 \<le> nN md"
  shows "kStep md (int d) k v
     = Inr (v[nat (k + nN md) := fr md (Suc d) k], fr md (Suc d) k, fr md (Suc d) k - k)"
proof -
  from sn have len: "int (length v) = 2 * nN md + 1" by (simp add: snapshot_def)
  have td: "takesDown v (nA md) (nB md) (int d) k = Inr (goesDown md d k)"
    using sn od dN by (rule takesDown_snapshot)
  have x0: "(if goesDown md d k then slice_at v (getIndexV (nA md) (nB md) (k + 1))
             else (case slice_at v (getIndexV (nA md) (nB md) (k - 1)) of Inl e \<Rightarrow> Inl e
                   | Inr w \<Rightarrow> Inr (w + 1))) = Inr (startX md d k)"
    using read_prev[OF sn od dN N1] by (simp add: startX_down startX_right)
  have sk: "snake md (startX md d k) (startX md d k - k)
      = Inr (fr md (Suc d) k, fr md (Suc d) k - k)"
    using snake_Inr[OF startX_nonneg[OF od] startY_nonneg[OF od], of md] by (simp add: fr_Suc)
  have st: "slice_set v (getIndexV (nA md) (nB md) k) (fr md (Suc d) k)
      = Inr (v[nat (k + nN md) := fr md (Suc d) k])"
    using len onDiag_bounds[OF od] dN by (simp add: slice_set_def getIndexV_def)
  show ?thesis
    unfolding kStep_def Let_def td by (simp add: x0 sk st)
qed

lemma readable_not_onDiag: "readable d k' \<Longrightarrow> onDiag d k \<Longrightarrow> k' \<noteq> k"
  unfolding readable_def onDiag_def by (auto; presburger)

lemma vAt_update:
  "int (length v) = 2 * nN md + 1 \<Longrightarrow> - nN md \<le> k \<Longrightarrow> k \<le> nN md \<Longrightarrow> - nN md \<le> k' \<Longrightarrow> k' \<le> nN md
    \<Longrightarrow> vAt md (v[nat (k + nN md) := x]) k' = (if k' = k then x else vAt md v k')"
  by (auto simp: vAt_def nth_list_update)

lemma readable_bounds: "readable d k \<Longrightarrow> int d \<le> nN md \<Longrightarrow> 1 \<le> nN md \<Longrightarrow> - nN md \<le> k \<and> k \<le> nN md"
  by (auto simp: readable_def onDiag_def)

lemma roundInv_step:
  assumes ri: "roundInv md d k v" and od: "onDiag d k" and dN: "int d \<le> nN md" and N1: "1 \<le> nN md"
    and ne: "\<not> isEnd md d k"
  shows "roundInv md d (k + 2) (v[nat (k + nN md) := fr md (Suc d) k])"
proof -
  let ?v' = "v[nat (k + nN md) := fr md (Suc d) k]"
  from ri have sn: "snapshot md d v" by (simp add: roundInv_def)
  then have len: "int (length v) = 2 * nN md + 1" by (simp add: snapshot_def)
  have kb: "- nN md \<le> k" "k \<le> nN md" using onDiag_bounds[OF od] dN by linarith+
  have "snapshot md d ?v'"
    unfolding snapshot_def
  proof (intro conjI allI impI)
    show "int (length ?v') = 2 * nN md + 1" using len by simp
  next
    fix k' assume r: "readable d k'"
    from readable_bounds[OF r dN N1] readable_not_onDiag[OF r od] sn r
    show "vAt md ?v' k' = fr md d k'"
      by (simp add: vAt_update[OF len kb] snapshot_def)
  qed
  moreover have "\<forall>k'. onDiag d k' \<and> k' < k + 2 \<longrightarrow> vAt md ?v' k' = fr md (Suc d) k' \<and> \<not> isEnd md d k'"
  proof (intro allI impI)
    fix k' assume a: "onDiag d k' \<and> k' < k + 2"
    then have k'b: "- nN md \<le> k'" "k' \<le> nN md" using onDiag_bounds[of d k'] dN by linarith+
    have "k' < k \<or> k' = k"
      using a od unfolding onDiag_def by (auto; presburger)
    then show "vAt md ?v' k' = fr md (Suc d) k' \<and> \<not> isEnd md d k'"
    proof
      assume "k' < k"
      with a ri show ?thesis by (simp add: vAt_update[OF len kb k'b] roundInv_def)
    next
      assume "k' = k"
      with ne show ?thesis by (simp add: vAt_update[OF len kb kb])
    qed
  qed
  ultimately show ?thesis by (simp add: roundInv_def)
qed

lemma kLoop_round:
  assumes "roundInv md d k v" "int d \<le> nN md" "1 \<le> nN md"
    "- int d \<le> k" "k \<le> int d + 2" "even (int d - k)"
  shows "\<exists>v' fl. kLoop md (int d) k v = Inr (v', fl) \<and> snapshot md d v'
     \<and> (fl \<longrightarrow> (\<exists>kt. onDiag d kt \<and> isEnd md d kt))
     \<and> (\<not> fl \<longrightarrow> (\<forall>k'. onDiag d k' \<longrightarrow> vAt md v' k' = fr md (Suc d) k' \<and> \<not> isEnd md d k'))"
  using assms
proof (induction md "int d" k v rule: kLoop.induct)
  case (1 md k v)
  show ?case
  proof (cases "k \<le> int d")
    case False
    then have "kLoop md (int d) k v = Inr (v, False)" by (subst kLoop.simps) simp
    moreover have "\<forall>k'. onDiag d k' \<longrightarrow> k' < k" using False by (auto simp: onDiag_def)
    ultimately show ?thesis using 1(2) by (auto simp: roundInv_def)
  next
    case True
    with 1(5,7) have od: "onDiag d k" by (simp add: onDiag_def)
    from 1(2) have sn: "snapshot md d v" by (simp add: roundInv_def)
    let ?x = "fr md (Suc d) k"
    let ?v' = "v[nat (k + nN md) := ?x]"
    have ks: "kStep md (int d) k v = Inr (?v', ?x, ?x - k)"
      using sn od 1(3,4) by (rule kStep_snapshot)
    show ?thesis
    proof (cases "isEnd md d k")
      case True
      then have "kLoop md (int d) k v = Inr (?v', True)"
        using \<open>k \<le> int d\<close> ks by (subst kLoop.simps) (simp add: isEnd_def)
      moreover have "snapshot md d ?v'"
      proof -
        from sn have len: "int (length v) = 2 * nN md + 1" by (simp add: snapshot_def)
        have kb: "- nN md \<le> k" "k \<le> nN md" using onDiag_bounds[OF od] 1(3) by linarith+
        show ?thesis unfolding snapshot_def
        proof (intro conjI allI impI)
          show "int (length ?v') = 2 * nN md + 1" using len by simp
        next
          fix k' assume r: "readable d k'"
          from readable_bounds[OF r 1(3,4)] readable_not_onDiag[OF r od] sn r
          show "vAt md ?v' k' = fr md d k'"
            by (simp add: vAt_update[OF len kb] snapshot_def)
        qed
      qed
      ultimately show ?thesis using od True by blast
    next
      case False
      then have unf: "kLoop md (int d) k v = kLoop md (int d) (k + 2) ?v'"
        using \<open>k \<le> int d\<close> ks by (subst kLoop.simps) (auto simp: isEnd_def)
      have ri': "roundInv md d (k + 2) ?v'"
        using 1(2) od 1(3,4) False by (rule roundInv_step)
      have ne: "\<not> (nA md \<le> ?x \<and> nB md \<le> ?x - k)" using False by (simp add: isEnd_def)
      have "\<exists>v' fl. kLoop md (int d) (k + 2) ?v' = Inr (v', fl) \<and> snapshot md d v'
         \<and> (fl \<longrightarrow> (\<exists>kt. onDiag d kt \<and> isEnd md d kt))
         \<and> (\<not> fl \<longrightarrow> (\<forall>k'. onDiag d k' \<longrightarrow> vAt md v' k' = fr md (Suc d) k' \<and> \<not> isEnd md d k'))"
        using 1(1)[OF True ks refl refl ne ri' 1(3,4)] 1(5) True 1(7) by simp
      then show ?thesis unfolding unf .
    qed
  qed
qed

lemma snapshot_next:
  assumes "snapshot md d v'" "\<forall>k'. onDiag d k' \<longrightarrow> vAt md v' k' = fr md (Suc d) k' \<and> \<not> isEnd md d k'"
  shows "snapshot md (Suc d) v'"
  using assms by (auto simp: snapshot_def readable_def)

lemma dLoop_trace:
  assumes "snapshot md d v" "int d \<le> nN md" "1 \<le> nN md" "length trace = d"
    "\<forall>d'. d' < d \<longrightarrow> snapshot md d' (trace ! d')"
    "\<forall>r' k'. r' < d \<longrightarrow> onDiag r' k' \<longrightarrow> \<not> isEnd md r' k'"
  shows "\<exists>tr D. dLoop md (int d) v trace = Inr tr \<and> goodTrace md D tr"
  using assms
proof (induction "nat (nN md) - d" arbitrary: d v trace rule: less_induct)
  case less
  have ri: "roundInv md d (- int d) v"
    using less.prems(1) by (auto simp: roundInv_def onDiag_def)
  from kLoop_round[OF ri less.prems(2,3)]
  obtain v' fl where kl: "kLoop md (int d) (- int d) v = Inr (v', fl)"
    and sn': "snapshot md d v'"
    and yes: "fl \<Longrightarrow> \<exists>kt. onDiag d kt \<and> isEnd md d kt"
    and no: "\<not> fl \<Longrightarrow> \<forall>k'. onDiag d k' \<longrightarrow> vAt md v' k' = fr md (Suc d) k' \<and> \<not> isEnd md d k'"
    by auto
  have snaps: "\<forall>d'. d' \<le> d \<longrightarrow> snapshot md d' ((trace @ [v']) ! d')"
  proof (intro allI impI)
    fix d' assume "d' \<le> d"
    then show "snapshot md d' ((trace @ [v']) ! d')"
      using less.prems(4,5) sn' by (cases "d' = d") (auto simp: nth_append)
  qed
  show ?case
  proof (cases fl)
    case True
    then have "dLoop md (int d) v trace = Inr (trace @ [v'])"
      using less.prems(2) kl by (subst dLoop.simps) simp
    moreover have "goodTrace md d (trace @ [v'])"
      using less.prems(2,4,6) snaps yes[OF True] by (simp add: goodTrace_def)
    ultimately show ?thesis by blast
  next
    case False
    have lt: "int d < nN md"
    proof (rule ccontr)
      assume "\<not> int d < nN md"
      with less.prems(2) have "d = length (md_a md) + length (md_b md)" by simp
      with end_exists[of md] no[OF False] show False by blast
    qed
    have unf: "dLoop md (int d) v trace = dLoop md (int (Suc d)) v' (trace @ [v'])"
      using less.prems(2) kl False by (subst dLoop.simps) (simp add: add.commute)
    have noend: "\<forall>r' k'. r' < Suc d \<longrightarrow> onDiag r' k' \<longrightarrow> \<not> isEnd md r' k'"
      using less.prems(6) no[OF False] by (auto simp: less_Suc_eq)
    have "\<exists>tr D. dLoop md (int (Suc d)) v' (trace @ [v']) = Inr tr \<and> goodTrace md D tr"
    proof (rule less.hyps)
      show "nat (nN md) - Suc d < nat (nN md) - d" using lt by linarith
      show "snapshot md (Suc d) v'" using sn' no[OF False] by (rule snapshot_next)
      show "int (Suc d) \<le> nN md" using lt by simp
      show "1 \<le> nN md" by (rule less.prems(3))
      show "length (trace @ [v']) = Suc d" using less.prems(4) by simp
      show "\<forall>d'. d' < Suc d \<longrightarrow> snapshot md d' ((trace @ [v']) ! d')"
        using snaps by (simp add: less_Suc_eq_le)
      show "\<forall>r' k'. r' < Suc d \<longrightarrow> onDiag r' k' \<longrightarrow> \<not> isEnd md r' k'" by (rule noend)
    qed
    then show ?thesis unfolding unf .
  qed
qed

lemma GetShortestPath_trace:
  assumes "1 \<le> nN md"
  shows "\<exists>tr D. GetShortestPath md = Inr tr \<and> goodTrace md D tr"
proof -
  let ?v = "replicate (nat (2 * nN md + 1)) (0::int)"
  have sn: "snapshot md 0 ?v"
    using assms by (auto simp: snapshot_def readable_def vAt_def)
  have "\<exists>tr D. dLoop md (int 0) ?v [] = Inr tr \<and> goodTrace md D tr"
    using sn assms by (intro dLoop_trace) simp_all
  then show ?thesis by (simp add: GetShortestPath_def Let_def)
qed

lemma goodTrace_corner:
  assumes "goodTrace md D tr"
  shows "onDiag D (nA md - nB md) \<and> fr md (Suc D) (nA md - nB md) = nA md"
proof -
  from assms obtain kt where kt: "onDiag D kt" "isEnd md D kt"
    and no: "\<And>r' k'. r' < D \<Longrightarrow> onDiag r' k' \<Longrightarrow> \<not> isEnd md r' k'"
    by (auto simp: goodTrace_def)
  from first_end_is_corner[OF kt no] kt(1) show ?thesis by auto
qed

subsection \<open>Scripts and their application\<close>

lemma applyOps_append:
  "applyOps s1 l1 = Some (o1, []) \<Longrightarrow> applyOps s2 l2 = Some (o2, r)
     \<Longrightarrow> applyOps (s1 @ s2) (l1 @ l2) = Some (o1 @ o2, r)"
proof (induction s1 arbitrary: l1 o1)
  case Nil
  then show ?case by simp
next
  case (Cons op s1)
  show ?case
  proof (cases "diffType op")
    case fileDiffIns
    with Cons.prems(1) obtain lb o1' where "lineB op = Some lb" "applyOps s1 l1 = Some (o1', [])" "o1 = lb # o1'"
      by (auto split: option.splits)
    with Cons.IH[OF this(2) Cons.prems(2)] fileDiffIns show ?thesis by simp
  next
    case fileDiffDel
    with Cons.prems(1) obtain l l1' where "l1 = l # l1'" "lineA op = Some l" "applyOps s1 l1' = Some (o1, [])"
      by (auto split: list.splits if_splits)
    with Cons.IH[OF this(3) Cons.prems(2)] fileDiffDel show ?thesis by simp
  next
    case fileDiffEql
    with Cons.prems(1) obtain l l1' lb o1' where "l1 = l # l1'" "lineB op = Some lb" "lineA op = Some l"
      "linetext l = linetext lb" "applyOps s1 l1' = Some (o1', [])" "o1 = lb # o1'"
      by (auto split: list.splits option.splits if_splits)
    with Cons.IH[OF this(5) Cons.prems(2)] fileDiffEql show ?thesis by simp
  qed
qed

lemma apply_snoc_eql:
  assumes "applyOps S (take X a) = Some (take Y b, [])" "X < length a" "Y < length b"
    "linetext (a ! X) = linetext (b ! Y)"
  shows "applyOps (S @ [eqlOp (a ! X) (b ! Y)]) (take (Suc X) a) = Some (take (Suc Y) b, [])"
proof -
  have "applyOps [eqlOp (a ! X) (b ! Y)] [a ! X] = Some ([b ! Y], [])"
    using assms(4) by (simp add: eqlOp_def)
  from applyOps_append[OF assms(1) this] assms(2,3) show ?thesis
    by (simp add: take_Suc_conv_app_nth)
qed

lemma apply_snoc_ins:
  assumes "applyOps S (take X a) = Some (take Y b, [])" "Y < length b"
  shows "applyOps (S @ [insOp (b ! Y)]) (take X a) = Some (take (Suc Y) b, [])"
proof -
  have "applyOps [insOp (b ! Y)] [] = Some ([b ! Y], [])"
    by (simp add: insOp_def)
  from applyOps_append[OF assms(1) this] assms(2) show ?thesis
    by (simp add: take_Suc_conv_app_nth)
qed

lemma apply_snoc_del:
  assumes "applyOps S (take X a) = Some (take Y b, [])" "X < length a"
  shows "applyOps (S @ [delOp (a ! X)]) (take (Suc X) a) = Some (take Y b, [])"
proof -
  have "applyOps [delOp (a ! X)] [a ! X] = Some ([], [])"
    by (simp add: delOp_def)
  from applyOps_append[OF assms(1) this] assms(2) show ?thesis
    by (simp add: take_Suc_conv_app_nth)
qed

lemma apply_diag:
  "applyOps S (take (nat (x - int c)) (md_a md)) = Some (take (nat (y - int c)) (md_b md), [])
   \<Longrightarrow> int c \<le> x \<Longrightarrow> int c \<le> y \<Longrightarrow> x \<le> nA md \<Longrightarrow> y \<le> nB md
   \<Longrightarrow> (\<forall>j. x - int c \<le> j \<and> j < x \<longrightarrow>
          linetext (md_a md ! nat j) = linetext (md_b md ! nat (j - (x - y))))
   \<Longrightarrow> applyOps (S @ rev (diagOps md x y c)) (take (nat x) (md_a md))
        = Some (take (nat y) (md_b md), [])"
proof (induction c arbitrary: x y)
  case 0
  then show ?case by simp
next
  case (Suc c)
  have p: "applyOps S (take (nat (x - 1 - int c)) (md_a md)) = Some (take (nat (y - 1 - int c)) (md_b md), [])"
    using Suc.prems(1) by (simp add: algebra_simps)
  have t: "\<forall>j. x - 1 - int c \<le> j \<and> j < x - 1 \<longrightarrow>
          linetext (md_a md ! nat j) = linetext (md_b md ! nat (j - (x - 1 - (y - 1))))"
    using Suc.prems(6) by simp
  have ih: "applyOps (S @ rev (diagOps md (x - 1) (y - 1) c)) (take (nat (x - 1)) (md_a md))
        = Some (take (nat (y - 1)) (md_b md), [])"
    using Suc.prems(2,3,4,5) by (intro Suc.IH[OF p _ _ _ _ t]) simp_all
  have eq: "linetext (md_a md ! nat (x - 1)) = linetext (md_b md ! nat (y - 1))"
    using Suc.prems(6)[rule_format, of "x - 1"] by simp
  have "applyOps ((S @ rev (diagOps md (x - 1) (y - 1) c))
          @ [eqlOp (md_a md ! nat (x - 1)) (md_b md ! nat (y - 1))])
          (take (Suc (nat (x - 1))) (md_a md)) = Some (take (Suc (nat (y - 1))) (md_b md), [])"
    using Suc.prems(2,3,4,5) by (intro apply_snoc_eql[OF ih _ _ eq]) simp_all
  moreover have "Suc (nat (x - 1)) = nat x" "Suc (nat (y - 1)) = nat y"
    using Suc.prems(2,3) by simp_all
  ultimately show ?case by simp
qed

lemma diffOf_diag:
  "1 \<le> x \<Longrightarrow> 1 \<le> y \<Longrightarrow> x \<le> nA md \<Longrightarrow> y \<le> nB md \<Longrightarrow>
   diffOf md \<lparr>prevX = x - 1, prevY = y - 1, el_x = x, el_y = y\<rparr>
     = Inr (eqlOp (md_a md ! nat (x - 1)) (md_b md ! nat (y - 1)))"
  by (simp add: diffOf_def slice_at_def eqlOp_def)

lemma diffAll_diagEls:
  "int c \<le> x \<Longrightarrow> int c \<le> y \<Longrightarrow> x \<le> nA md \<Longrightarrow> y \<le> nB md
    \<Longrightarrow> diffAll md (diagEls x y c) = Inr (diagOps md x y c)"
proof (induction c arbitrary: x y)
  case 0
  then show ?case by simp
next
  case (Suc c)
  have "diffAll md (diagEls (x - 1) (y - 1) c) = Inr (diagOps md (x - 1) (y - 1) c)"
    using Suc.prems by (intro Suc.IH) simp_all
  moreover have "diffOf md \<lparr>prevX = x - 1, prevY = y - 1, el_x = x, el_y = y\<rparr>
     = Inr (eqlOp (md_a md ! nat (x - 1)) (md_b md ! nat (y - 1)))"
    using Suc.prems by (intro diffOf_diag) simp_all
  ultimately show ?case by simp
qed

lemma diffAll_append:
  "diffAll md xs = Inr s1 \<Longrightarrow> diffAll md ys = Inr s2 \<Longrightarrow> diffAll md (xs @ ys) = Inr (s1 @ s2)"
  by (induction xs arbitrary: s1) (auto split: sum.splits)

lemma walkBack_run:
  assumes "x0 \<le> x" "x - y = x0 - y0" "(pX = x0 \<and> pY = y0 - 1) \<or> (pX = x0 - 1 \<and> pY = y0)"
  shows "walkBack x y pX pY = (diagEls x y (nat (x - x0)), x0, y0)"
  using assms
proof (induction "nat (x - x0)" arbitrary: x y)
  case 0
  then have "x = x0" "y = y0" by simp_all
  with 0 show ?case by (subst walkBack.simps) auto
next
  case (Suc c)
  then have gt: "x0 < x" "y0 < y" by linarith+
  have c: "c = nat (x - 1 - x0)" using Suc(2) by linarith
  have ih: "walkBack (x - 1) (y - 1) pX pY = (diagEls (x - 1) (y - 1) (nat (x - 1 - x0)), x0, y0)"
    using Suc(1)[OF c] Suc(3,4,5) gt by simp
  have cond: "x > pX \<and> y > pY" using gt Suc(5) by auto
  have "nat (x - x0) = Suc (nat (x - 1 - x0))" using gt by simp
  then show ?case
    using cond ih by (subst walkBack.simps) simp
qed

subsection \<open>Backtrack retraces the rounds\<close>

text \<open>
  In round \<open>d\<close>, at the value of that round on its diagonal, \<open>Backtrack\<close> takes the
  branch that \<open>GetShortestPath\<close> took, walks the snake back to its start and sends the
  one step that led there. The ops sent from a point on, read from the last to the
  first, turn the lines of \<open>a\<close> before the point into the lines of \<open>b\<close> before it, and
  each round but round \<open>0\<close> adds exactly one op that is not \<open>Equal\<close>.
\<close>

lemma round_text:
  assumes od: "onDiag d k" and x: "x = fr md (Suc d) k"
  shows "\<forall>j. startX md d k \<le> j \<and> j < x \<longrightarrow>
           linetext (md_a md ! nat j) = linetext (md_b md ! nat (j - k))"
proof (intro allI impI)
  fix j assume j: "startX md d k \<le> j \<and> j < x"
  have "linetext (md_a md ! nat j)
      = linetext (md_b md ! nat (j - (startX md d k - (startX md d k - k))))"
    using j x startX_nonneg[OF od] startY_nonneg[OF od]
    by (intro snakeX_text) (simp_all add: fr_Suc)
  then show "linetext (md_a md ! nat j) = linetext (md_b md ! nat (j - k))" by simp
qed

lemma backtrackLoop_end:
  "length tr = Suc D \<Longrightarrow> backtrackLoop md tr (int D + 1) x y = Inr []"
  by (subst backtrackLoop.simps) simp

lemma backtrackLoop_step:
  assumes len: "length tr = Suc D" and dD: "d \<le> D" and sn: "snapshot md d (tr ! d)"
    and od: "onDiag d (x - y)" and dN: "int d \<le> nN md" and N1: "1 \<le> nN md"
    and wb: "walkBack x y (fr md d (if goesDown md d (x - y) then x - y + 1 else x - y - 1))
               (fr md d (if goesDown md d (x - y) then x - y + 1 else x - y - 1)
                 - (if goesDown md d (x - y) then x - y + 1 else x - y - 1)) = (els, x', y')"
    and rest: "backtrackLoop md tr (int (D - d) + 1)
               (fr md d (if goesDown md d (x - y) then x - y + 1 else x - y - 1))
               (fr md d (if goesDown md d (x - y) then x - y + 1 else x - y - 1)
                 - (if goesDown md d (x - y) then x - y + 1 else x - y - 1)) = Inr later"
  shows "backtrackLoop md tr (int (D - d)) x y =
     Inr ((if 0 < d
           then els @ [\<lparr>prevX = fr md d (if goesDown md d (x - y) then x - y + 1 else x - y - 1),
                        prevY = fr md d (if goesDown md d (x - y) then x - y + 1 else x - y - 1)
                           - (if goesDown md d (x - y) then x - y + 1 else x - y - 1),
                        el_x = x', el_y = y'\<rparr>]
           else els) @ later)"
proof -
  have i: "int (D - d) < int (length tr)" using len by simp
  have dd: "int (length tr) - int (D - d) - 1 = int d" using len dD by simp
  have sl: "slice_at tr (int d) = Inr (tr ! d)" using len dD by (simp add: slice_at_def)
  have td: "takesDown (tr ! d) (nA md) (nB md) (int d) (x - y) = Inr (goesDown md d (x - y))"
    using sn od dN by (rule takesDown_snapshot)
  have rd: "slice_at (tr ! d) (getIndexV (nA md) (nB md)
              (if goesDown md d (x - y) then x - y + 1 else x - y - 1))
            = Inr (fr md d (if goesDown md d (x - y) then x - y + 1 else x - y - 1))"
    using read_prev[OF sn od dN N1] by simp
  show ?thesis
    apply (subst backtrackLoop.simps)
    apply (simp only: Let_def i if_True dd sl sum.case td rd wb prod.case rest)
    apply simp
    done
qed

lemma diffOf_down:
  "0 \<le> x0 \<Longrightarrow> 1 \<le> y0 \<Longrightarrow> y0 \<le> nB md \<Longrightarrow>
   diffOf md \<lparr>prevX = x0, prevY = y0 - 1, el_x = x0, el_y = y0\<rparr> = Inr (insOp (md_b md ! nat (y0 - 1)))"
  by (simp add: diffOf_def slice_at_def insOp_def)

lemma diffOf_right:
  "1 \<le> x0 \<Longrightarrow> 0 \<le> y0 \<Longrightarrow> x0 \<le> nA md \<Longrightarrow>
   diffOf md \<lparr>prevX = x0 - 1, prevY = y0, el_x = x0, el_y = y0\<rparr> = Inr (delOp (md_a md ! nat (x0 - 1)))"
  by (simp add: diffOf_def slice_at_def delOp_def)

lemma nonEqualOps_diagOps: "nonEqualOps (diagOps md x y c) = 0"
  by (induction c arbitrary: x y) (simp_all add: nonEqualOps_def eqlOp_def)

lemma backtrack_rounds:
  assumes gt: "goodTrace md D tr" and N1: "1 \<le> nN md"
  shows "d \<le> D \<Longrightarrow> onDiag d (x - y) \<Longrightarrow> x = fr md (Suc d) (x - y) \<Longrightarrow> x \<le> nA md \<Longrightarrow> y \<le> nB md \<Longrightarrow>
     \<exists>els script. backtrackLoop md tr (int (D - d)) x y = Inr els \<and> diffAll md els = Inr script
        \<and> applyOps (rev script) (take (nat x) (md_a md)) = Some (take (nat y) (md_b md), [])
        \<and> nonEqualOps script = d"
proof (induction d arbitrary: x y)
  case 0
  from gt have len: "length tr = Suc D" and DN: "int D \<le> nN md"
    and sn: "snapshot md 0 (tr ! 0)" by (auto simp: goodTrace_def)
  from 0(2) have k: "x - y = 0" by (simp add: onDiag_0)
  have g: "goesDown md 0 (x - y)" using k by (simp add: goesDown_def)
  have s0: "startX md 0 0 = 0" by (simp add: startX_def)
  have x0: "0 \<le> x" using fr_ge_startX[OF 0(2), of md] 0(3) k s0 by simp
  have wb: "walkBack x y 0 (- 1) = (diagEls x y (nat (x - 0)), 0, 0)"
    using x0 k by (intro walkBack_run) simp_all
  have "backtrackLoop md tr (int (D - 0)) x y = Inr ((if 0 < (0::nat) then
      diagEls x y (nat (x - 0)) @ [\<lparr>prevX = fr md 0 (if goesDown md 0 (x - y) then x - y + 1 else x - y - 1),
                        prevY = fr md 0 (if goesDown md 0 (x - y) then x - y + 1 else x - y - 1)
                           - (if goesDown md 0 (x - y) then x - y + 1 else x - y - 1),
                        el_x = 0, el_y = 0\<rparr>] else diagEls x y (nat (x - 0))) @ [])"
    using len sn 0(2) N1 g k wb backtrackLoop_end[OF len, of md]
    by (intro backtrackLoop_step) simp_all
  then have bl: "backtrackLoop md tr (int (D - 0)) x y = Inr (diagEls x y (nat x))" by simp
  have da: "diffAll md (diagEls x y (nat x)) = Inr (diagOps md x y (nat x))"
    using x0 k 0(4,5) by (intro diffAll_diagEls) simp_all
  have tx: "\<forall>j. x - int (nat x) \<le> j \<and> j < x \<longrightarrow>
          linetext (md_a md ! nat j) = linetext (md_b md ! nat (j - (x - y)))"
    using round_text[OF 0(2,3)] k s0 x0 by simp
  have "applyOps ([] @ rev (diagOps md x y (nat x))) (take (nat x) (md_a md))
        = Some (take (nat y) (md_b md), [])"
    using x0 k 0(4,5) by (intro apply_diag[OF _ _ _ _ _ tx]) simp_all
  with bl da nonEqualOps_diagOps[of md x y "nat x"] show ?case by auto
next
  case (Suc d)
  let ?k = "x - y"
  let ?pk = "if goesDown md (Suc d) ?k then ?k + 1 else ?k - 1"
  let ?pX = "fr md (Suc d) ?pk"
  let ?pY = "?pX - ?pk"
  let ?x0 = "startX md (Suc d) ?k"
  let ?y0 = "?x0 - ?k"
  let ?c = "nat (x - ?x0)"
  from gt have len: "length tr = Suc D" and DN: "int D \<le> nN md"
    and sn: "snapshot md (Suc d) (tr ! Suc d)" using Suc.prems(1) by (auto simp: goodTrace_def)
  have dN: "int (Suc d) \<le> nN md" using DN Suc.prems(1) by linarith
  note od = Suc.prems(2)
  have x0n: "0 \<le> ?x0" "0 \<le> ?y0" using startX_nonneg[OF od] startY_nonneg[OF od] by auto
  have x0x: "?x0 \<le> x" using fr_ge_startX[OF od, of md] Suc.prems(3) by simp
  have odp: "onDiag d ?pk"
    using od goesDown_not_top[of md d ?k] not_goesDown_not_bottom[of md "Suc d" ?k]
    by (auto intro: onDiag_up onDiag_left)
  have pn: "0 \<le> ?pX" "0 \<le> ?pY" using fr_x_nonneg[OF odp] fr_y_nonneg[OF odp] by auto
  have shape: "(?pX = ?x0 \<and> ?pY = ?y0 - 1) \<or> (?pX = ?x0 - 1 \<and> ?pY = ?y0)"
    by (cases "goesDown md (Suc d) ?k") (simp_all add: startX_down startX_right)
  have wb: "walkBack x y ?pX ?pY = (diagEls x y ?c, ?x0, ?y0)"
    using x0x shape by (intro walkBack_run) simp_all
  have pXle: "?pX \<le> nA md" "?pY \<le> nB md" using shape x0x Suc.prems(4,5) by auto
  have "\<exists>els script. backtrackLoop md tr (int (D - d)) ?pX ?pY = Inr els \<and> diffAll md els = Inr script
        \<and> applyOps (rev script) (take (nat ?pX) (md_a md)) = Some (take (nat ?pY) (md_b md), [])
        \<and> nonEqualOps script = d"
    using Suc.prems(1) odp pXle by (intro Suc.IH) simp_all
  then obtain later sm where later: "backtrackLoop md tr (int (D - d)) ?pX ?pY = Inr later"
    and dm: "diffAll md later = Inr sm"
    and am: "applyOps (rev sm) (take (nat ?pX) (md_a md)) = Some (take (nat ?pY) (md_b md), [])"
    and cm: "nonEqualOps sm = d"
    by blast
  have idx: "int (D - Suc d) + 1 = int (D - d)" using Suc.prems(1) by simp
  let ?step = "\<lparr>prevX = ?pX, prevY = ?pY, el_x = ?x0, el_y = ?y0\<rparr>"
  have bl: "backtrackLoop md tr (int (D - Suc d)) x y = Inr ((diagEls x y ?c @ [?step]) @ later)"
    using backtrackLoop_step[OF len Suc.prems(1) sn od dN N1 wb, of later] later idx by simp
  have cx: "int ?c \<le> x" "int ?c \<le> y" using x0x x0n by simp_all
  have dd: "diffAll md (diagEls x y ?c) = Inr (diagOps md x y ?c)"
    using cx Suc.prems(4,5) by (intro diffAll_diagEls) simp_all
  have y0y: "?y0 \<le> y" using x0x by simp
  obtain sop where ds: "diffOf md ?step = Inr sop"
    and as: "applyOps (rev sm @ [sop]) (take (nat ?x0) (md_a md)) = Some (take (nat ?y0) (md_b md), [])"
    and ty: "diffType sop \<noteq> fileDiffEql"
  proof (cases "goesDown md (Suc d) ?k")
    case True
    then have e: "?pX = ?x0" "?pY = ?y0 - 1" by (simp_all add: startX_down)
    have y1: "1 \<le> ?y0" using pn(2) e by linarith
    have st: "?step = \<lparr>prevX = ?x0, prevY = ?y0 - 1, el_x = ?x0, el_y = ?y0\<rparr>"
      using True by (simp add: startX_down)
    have d1: "diffOf md ?step = Inr (insOp (md_b md ! nat (?y0 - 1)))"
      unfolding st using x0n(1) y1 y0y Suc.prems(5) by (intro diffOf_down) simp_all
    note am' = am[unfolded e(2), unfolded e(1)]
    have "applyOps (rev sm @ [insOp (md_b md ! nat (?y0 - 1))]) (take (nat ?x0) (md_a md))
        = Some (take (Suc (nat (?y0 - 1))) (md_b md), [])"
      using y1 y0y Suc.prems(5) by (intro apply_snoc_ins[OF am']) simp_all
    moreover have "Suc (nat (?y0 - 1)) = nat ?y0" using y1 by simp
    ultimately show ?thesis using that d1 by (simp add: insOp_def delOp_def)
  next
    case False
    then have e: "?pX = ?x0 - 1" "?pY = ?y0" by (simp_all add: startX_right)
    have x1: "1 \<le> ?x0" using pn(1) e by linarith
    have st: "?step = \<lparr>prevX = ?x0 - 1, prevY = ?y0, el_x = ?x0, el_y = ?y0\<rparr>"
      using False by (simp add: startX_right)
    have d1: "diffOf md ?step = Inr (delOp (md_a md ! nat (?x0 - 1)))"
      unfolding st using x0n(2) x1 x0x Suc.prems(4) by (intro diffOf_right) simp_all
    note am' = am[unfolded e(2), unfolded e(1)]
    have "applyOps (rev sm @ [delOp (md_a md ! nat (?x0 - 1))]) (take (Suc (nat (?x0 - 1))) (md_a md))
        = Some (take (nat ?y0) (md_b md), [])"
      using x1 x0x Suc.prems(4) by (intro apply_snoc_del[OF am']) simp_all
    moreover have "Suc (nat (?x0 - 1)) = nat ?x0" using x1 by simp
    ultimately show ?thesis using that d1 by (simp add: insOp_def delOp_def)
  qed
  have dall: "diffAll md ((diagEls x y ?c @ [?step]) @ later) = Inr ((diagOps md x y ?c @ [sop]) @ sm)"
  proof -
    have "diffAll md [?step] = Inr [sop]" using ds by simp
    from diffAll_append[OF diffAll_append[OF dd this] dm] show ?thesis .
  qed
  have tx: "\<forall>j. x - int ?c \<le> j \<and> j < x \<longrightarrow>
          linetext (md_a md ! nat j) = linetext (md_b md ! nat (j - (x - y)))"
    using round_text[OF od Suc.prems(3)] x0x by simp
  have e1: "x - int ?c = ?x0" and e2: "y - int ?c = ?y0" using x0x by simp_all
  have as': "applyOps (rev sm @ [sop]) (take (nat (x - int ?c)) (md_a md))
       = Some (take (nat (y - int ?c)) (md_b md), [])"
    unfolding e1 e2 by (rule as)
  have "applyOps ((rev sm @ [sop]) @ rev (diagOps md x y ?c)) (take (nat x) (md_a md))
        = Some (take (nat y) (md_b md), [])"
    using cx Suc.prems(4,5) by (intro apply_diag[OF as' _ _ _ _ tx]) simp_all
  then have "applyOps (rev ((diagOps md x y ?c @ [sop]) @ sm)) (take (nat x) (md_a md))
        = Some (take (nat y) (md_b md), [])" by simp
  moreover have "nonEqualOps ((diagOps md x y ?c @ [sop]) @ sm) = Suc d"
    using cm ty nonEqualOps_diagOps[of md x y ?c] by (simp add: nonEqualOps_def)
  ultimately show ?case using bl dall by blast
qed

text \<open>
  C1, as amended. For two sequences of lines that are not both empty, \<open>Diff\<close> returns a
  script (it does not panic, and \<open>GetShortestPath\<close> does not fall out of its loop), and
  the script read from its last op to its first turns \<open>a\<close> into \<open>b\<close>: each \<open>Delete\<close>
  and each \<open>Equal\<close> consumes the next line of \<open>a\<close>, which is the \<open>lineA\<close> of the op,
  each \<open>Insert\<close> and each \<open>Equal\<close> emits its \<open>lineB\<close>, the two lines of an \<open>Equal\<close>
  have the same text, all of \<open>a\<close> is consumed and the lines emitted are exactly \<open>b\<close>.
\<close>

theorem C1_reversed_script_turns_a_into_b:
  assumes "a \<noteq> [] \<or> b \<noteq> []"
  shows "\<exists>script. Diff (NewMyersDifferer a b) = Inr script \<and> applyScript (rev script) a = Some b"
proof -
  let ?md = "NewMyersDifferer a b"
  have N1: "1 \<le> nN ?md" using assms by (cases a; cases b) (auto simp: NewMyersDifferer_def)
  from GetShortestPath_trace[OF N1] obtain tr D where
    gsp: "GetShortestPath ?md = Inr tr" and gt: "goodTrace ?md D tr" by blast
  from goodTrace_corner[OF gt] have od: "onDiag D (nA ?md - nB ?md)"
    and fx: "fr ?md (Suc D) (nA ?md - nB ?md) = nA ?md" by auto
  have "\<exists>els script. backtrackLoop ?md tr (int (D - D)) (nA ?md) (nB ?md) = Inr els
        \<and> diffAll ?md els = Inr script
        \<and> applyOps (rev script) (take (nat (nA ?md)) (md_a ?md)) = Some (take (nat (nB ?md)) (md_b ?md), [])
        \<and> nonEqualOps script = D"
    using od fx by (intro backtrack_rounds[OF gt N1]) simp_all
  then obtain els script where bl: "backtrackLoop ?md tr 0 (nA ?md) (nB ?md) = Inr els"
    and da: "diffAll ?md els = Inr script"
    and ap: "applyOps (rev script) a = Some (b, [])"
    by (auto simp: NewMyersDifferer_def)
  have "Diff ?md = Inr script"
    using gsp bl da by (simp add: Diff_def Backtrack_def Let_def)
  moreover have "applyScript (rev script) a = Some b" using ap by (simp add: applyScript_def)
  ultimately show ?thesis by blast
qed

theorem C1_witness:
  "Diff (NewMyersDifferer oneLine twoLines)
       = Inr [insOp \<lparr>number = 1, linetext = ''y''\<rparr>,
              eqlOp \<lparr>number = 0, linetext = ''x''\<rparr> \<lparr>number = 0, linetext = ''x''\<rparr>]
   \<and> applyScript (rev [insOp \<lparr>number = 1, linetext = ''y''\<rparr>,
                         eqlOp \<lparr>number = 0, linetext = ''x''\<rparr> \<lparr>number = 0, linetext = ''x''\<rparr>])
         oneLine = Some twoLines"
proof -
  have h: "oneLine \<noteq> [] \<or> twoLines \<noteq> []"
    by (simp add: oneLine_def getFileLines_def)
  from C1_reversed_script_turns_a_into_b [OF h] obtain script
    where s: "Diff (NewMyersDifferer oneLine twoLines) = Inr script"
      "applyScript (rev script) oneLine = Some twoLines" by blast
  have ev: "Diff (NewMyersDifferer oneLine twoLines)
       = Inr [insOp \<lparr>number = 1, linetext = ''y''\<rparr>,
              eqlOp \<lparr>number = 0, linetext = ''x''\<rparr> \<lparr>number = 0, linetext = ''x''\<rparr>]"
    by code_simp
  from s ev show ?thesis by simp
qed

text \<open>
  The claim as stated reads the script in the order \<open>Diff\<close> returns it. \<open>Backtrack\<close>
  walks from the end of both sequences to their start, and \<open>Diff\<close> appends in that
  order: for \<open>a\<close> empty and \<open>b\<close> the two lines \<open>x\<close>, \<open>y\<close> the script is the insertion
  of \<open>y\<close> followed by the insertion of \<open>x\<close>, and read in that order it emits \<open>y\<close>, \<open>x\<close>.
\<close>

theorem C1_script_order_counterexample:
  "Diff (NewMyersDifferer [] twoLines)
     = Inr [insOp \<lparr>number = 1, linetext = ''y''\<rparr>, insOp \<lparr>number = 0, linetext = ''x''\<rparr>]
   \<and> applyScript [insOp \<lparr>number = 1, linetext = ''y''\<rparr>, insOp \<lparr>number = 0, linetext = ''x''\<rparr>] []
     = Some [\<lparr>number = 1, linetext = ''y''\<rparr>, \<lparr>number = 0, linetext = ''x''\<rparr>]
   \<and> applyScript [insOp \<lparr>number = 1, linetext = ''y''\<rparr>, insOp \<lparr>number = 0, linetext = ''x''\<rparr>] []
     \<noteq> Some twoLines"
  by code_simp

section \<open>Minimality of the script\<close>

lemma snakeX_maximal:
  "0 \<le> x \<Longrightarrow> 0 \<le> y \<Longrightarrow>
   \<not> (snakeX md x y < nA md \<and> snakeX md x y - (x - y) < nB md
      \<and> linetext (md_a md ! nat (snakeX md x y))
          = linetext (md_b md ! nat (snakeX md x y - (x - y))))"
proof (induction md x y rule: snake.induct)
  case (1 md x y)
  show ?case
  proof (cases "x < nA md \<and> y < nB md")
    case False
    then have "snakeX md x y = x" by (rule snakeX_stop)
    with False show ?thesis by auto
  next
    case True
    with 1(2,3) have a: "slice_at (md_a md) x = Inr (md_a md ! nat x)"
      and b: "slice_at (md_b md) y = Inr (md_b md ! nat y)"
      by (simp_all add: slice_at_def)
    show ?thesis
    proof (cases "linetext (md_a md ! nat x) = linetext (md_b md ! nat y)")
      case False
      with True a b have "snake md x y = Inr (x, y)" by (subst snake.simps) simp
      then have "snakeX md x y = x" by (simp add: snakeX_def)
      with False show ?thesis by simp
    next
      case eq: True
      have unf: "snake md x y = snake md (x + 1) (y + 1)"
        using True a b eq by (subst snake.simps) simp
      have "snake md x y = Inr (snakeX md (x + 1) (y + 1), snakeX md (x + 1) (y + 1) - (x + 1 - (y + 1)))"
        unfolding unf using 1(2,3) by (intro snake_Inr) simp_all
      then have sx: "snakeX md x y = snakeX md (x + 1) (y + 1)"
        by (simp add: snakeX_def)
      from 1(1)[OF True a b eq] 1(2,3) sx show ?thesis by simp
    qed
  qed
qed

lemma fr_maximal:
  assumes od: "onDiag e k"
  shows "\<not> (fr md (Suc e) k < nA md \<and> fr md (Suc e) k - k < nB md
      \<and> linetext (md_a md ! nat (fr md (Suc e) k))
          = linetext (md_b md ! nat (fr md (Suc e) k - k)))"
  using snakeX_maximal[OF startX_nonneg[OF od, of md] startY_nonneg[OF od, of md], of md]
  by (simp add: fr_Suc)

lemma onDiag_step_down: "onDiag e k \<Longrightarrow> onDiag (Suc e) (k - 1)"
  unfolding onDiag_def by (auto; presburger)

lemma onDiag_step_right: "onDiag e k \<Longrightarrow> onDiag (Suc e) (k + 1)"
  unfolding onDiag_def by (auto; presburger)

lemma any_script_reaches_an_end:
  "applyOps S (drop x (md_a md)) = Some (drop y (md_b md), []) \<Longrightarrow> x \<le> length (md_a md)
    \<Longrightarrow> y \<le> length (md_b md) \<Longrightarrow> onDiag e (int x - int y)
    \<Longrightarrow> int x \<le> fr md (Suc e) (int x - int y)
    \<Longrightarrow> \<exists>e'. e' \<le> e + nonEqualOps S \<and> onDiag e' (nA md - nB md) \<and> isEnd md e' (nA md - nB md)"
proof (induction S arbitrary: x y e)
  case Nil
  then have "drop x (md_a md) = []" "drop y (md_b md) = []" by simp_all
  with Nil(2,3) have xy: "x = length (md_a md)" "y = length (md_b md)" by simp_all
  with Nil(4,5) have "onDiag e (nA md - nB md) \<and> isEnd md e (nA md - nB md)"
    by (simp add: isEnd_def)
  then show ?case by (intro exI[of _ e]) simp
next
  case (Cons op S)
  let ?k = "int x - int y"
  show ?case
  proof (cases "diffType op")
    case fileDiffIns
    with Cons.prems(1) obtain lb out where lb: "lineB op = Some lb"
      and ap: "applyOps S (drop x (md_a md)) = Some (out, [])" and o: "drop y (md_b md) = lb # out"
      by (auto split: option.splits)
    from o have ylt: "y < length (md_b md)" by (cases "y < length (md_b md)") auto
    with o have out: "out = drop (Suc y) (md_b md)"
      by (metis Cons_nth_drop_Suc list.inject)
    have od': "onDiag (Suc e) (int x - int (Suc y))"
      using onDiag_step_down[OF Cons.prems(4)] by (simp add: algebra_simps)
    have "fr md (Suc e) (?k - 1 + 1) \<le> fr md (Suc (Suc e)) (?k - 1)"
      using onDiag_step_down[OF Cons.prems(4)] Cons.prems(4)
      by (intro fr_ge_up) (auto simp: onDiag_def)
    with Cons.prems(5) have le: "int x \<le> fr md (Suc (Suc e)) (int x - int (Suc y))"
      by (simp add: algebra_simps)
    from Cons.IH[OF ap[unfolded out] Cons.prems(2) _ od' le] ylt
    obtain e' where "e' \<le> Suc e + nonEqualOps S" "onDiag e' (nA md - nB md)" "isEnd md e' (nA md - nB md)"
      by auto
    moreover have "nonEqualOps (op # S) = Suc (nonEqualOps S)"
      using fileDiffIns by (simp add: nonEqualOps_def)
    ultimately show ?thesis by (intro exI[of _ e']) simp
  next
    case fileDiffDel
    with Cons.prems(1) obtain l ls where d: "drop x (md_a md) = l # ls"
      and ap: "applyOps S ls = Some (drop y (md_b md), [])"
      by (auto split: list.splits if_splits)
    from d have xlt: "x < length (md_a md)" by (cases "x < length (md_a md)") auto
    with d have ls: "ls = drop (Suc x) (md_a md)"
      by (metis Cons_nth_drop_Suc list.inject)
    have od': "onDiag (Suc e) (int (Suc x) - int y)"
      using onDiag_step_right[OF Cons.prems(4)] by (simp add: algebra_simps)
    have "fr md (Suc e) (?k + 1 - 1) + 1 \<le> fr md (Suc (Suc e)) (?k + 1)"
      using onDiag_step_right[OF Cons.prems(4)] Cons.prems(4)
      by (intro fr_ge_left) (auto simp: onDiag_def)
    with Cons.prems(5) have le: "int (Suc x) \<le> fr md (Suc (Suc e)) (int (Suc x) - int y)"
      by (simp add: algebra_simps)
    from Cons.IH[OF ap[unfolded ls] _ Cons.prems(3) od' le] xlt
    obtain e' where "e' \<le> Suc e + nonEqualOps S" "onDiag e' (nA md - nB md)" "isEnd md e' (nA md - nB md)"
      by auto
    moreover have "nonEqualOps (op # S) = Suc (nonEqualOps S)"
      using fileDiffDel by (simp add: nonEqualOps_def)
    ultimately show ?thesis by (intro exI[of _ e']) simp
  next
    case fileDiffEql
    with Cons.prems(1) obtain l ls lb out where d: "drop x (md_a md) = l # ls"
      and lb: "lineB op = Some lb" and tx: "linetext l = linetext lb"
      and ap: "applyOps S ls = Some (out, [])" and o: "drop y (md_b md) = lb # out"
      by (auto split: list.splits option.splits if_splits)
    from d have xlt: "x < length (md_a md)" by (cases "x < length (md_a md)") auto
    with d have ls: "ls = drop (Suc x) (md_a md)" and l: "l = md_a md ! x"
      by (metis Cons_nth_drop_Suc list.inject)+
    from o have ylt: "y < length (md_b md)" by (cases "y < length (md_b md)") auto
    with o have out: "out = drop (Suc y) (md_b md)" and lb': "lb = md_b md ! y"
      by (metis Cons_nth_drop_Suc list.inject)+
    have od': "onDiag e (int (Suc x) - int (Suc y))" using Cons.prems(4) by simp
    have "int x \<noteq> fr md (Suc e) ?k"
    proof
      assume eq: "int x = fr md (Suc e) ?k"
      from fr_maximal[OF Cons.prems(4), of md] xlt ylt tx l lb'
      show False unfolding eq[symmetric] by simp
    qed
    with Cons.prems(5) have le: "int (Suc x) \<le> fr md (Suc e) (int (Suc x) - int (Suc y))"
      by simp
    from Cons.IH[OF ap[unfolded ls out] _ _ od' le] xlt ylt
    obtain e' where "e' \<le> e + nonEqualOps S" "onDiag e' (nA md - nB md)" "isEnd md e' (nA md - nB md)"
      by auto
    moreover have "nonEqualOps (op # S) = nonEqualOps S"
      using fileDiffEql by (simp add: nonEqualOps_def)
    ultimately show ?thesis by (intro exI[of _ e']) simp
  qed
qed

lemma nonEqualOps_rev: "nonEqualOps (rev s) = nonEqualOps s"
  by (simp add: nonEqualOps_def flip: rev_filter)

text \<open>
  The script of \<open>Diff\<close> is a shortest one: when the inputs are not both empty, no
  script that turns \<open>a\<close> into \<open>b\<close> has fewer ops that are not \<open>Equal\<close>. The number
  of such ops in the script of \<open>Diff\<close> is the index of the last round of
  \<open>GetShortestPath\<close>, and a script with \<open>e\<close> such ops cannot get past the values of
  round \<open>e\<close>.
\<close>

theorem Diff_script_is_shortest:
  assumes "a \<noteq> [] \<or> b \<noteq> []"
  shows "\<exists>script. Diff (NewMyersDifferer a b) = Inr script
      \<and> applyScript (rev script) a = Some b
      \<and> (\<forall>S. applyScript S a = Some b \<longrightarrow> nonEqualOps script \<le> nonEqualOps S)"
proof -
  let ?md = "NewMyersDifferer a b"
  have N1: "1 \<le> nN ?md" using assms by (cases a; cases b) (auto simp: NewMyersDifferer_def)
  from GetShortestPath_trace[OF N1] obtain tr D where
    gsp: "GetShortestPath ?md = Inr tr" and gt: "goodTrace ?md D tr" by blast
  from goodTrace_corner[OF gt] have od: "onDiag D (nA ?md - nB ?md)"
    and fx: "fr ?md (Suc D) (nA ?md - nB ?md) = nA ?md" by auto
  have "\<exists>els script. backtrackLoop ?md tr (int (D - D)) (nA ?md) (nB ?md) = Inr els
        \<and> diffAll ?md els = Inr script
        \<and> applyOps (rev script) (take (nat (nA ?md)) (md_a ?md)) = Some (take (nat (nB ?md)) (md_b ?md), [])
        \<and> nonEqualOps script = D"
    using od fx by (intro backtrack_rounds[OF gt N1]) simp_all
  then obtain els script where bl: "backtrackLoop ?md tr 0 (nA ?md) (nB ?md) = Inr els"
    and da: "diffAll ?md els = Inr script"
    and ap: "applyOps (rev script) a = Some (b, [])"
    and cnt: "nonEqualOps script = D"
    by (auto simp: NewMyersDifferer_def)
  have df: "Diff ?md = Inr script"
    using gsp bl da by (simp add: Diff_def Backtrack_def Let_def)
  have ok: "applyScript (rev script) a = Some b" using ap by (simp add: applyScript_def)
  have "\<forall>S. applyScript S a = Some b \<longrightarrow> nonEqualOps script \<le> nonEqualOps S"
  proof (intro allI impI)
    fix S assume "applyScript S a = Some b"
    then have "applyOps S (drop 0 (md_a ?md)) = Some (drop 0 (md_b ?md), [])"
      by (auto simp: applyScript_def NewMyersDifferer_def split: option.splits list.splits)
    moreover have "onDiag 0 (int 0 - int 0)" by (simp add: onDiag_0)
    moreover have "int 0 \<le> fr ?md (Suc 0) (int 0 - int 0)"
      using fr_x_nonneg[of 0 0 ?md] by (simp add: onDiag_0)
    ultimately obtain e' where e': "e' \<le> 0 + nonEqualOps S" "onDiag e' (nA ?md - nB ?md)"
      "isEnd ?md e' (nA ?md - nB ?md)"
      using any_script_reaches_an_end[of S 0 ?md 0 0] by auto
    have "\<not> e' < D" using gt e'(2,3) by (auto simp: goodTrace_def)
    with e'(1) cnt show "nonEqualOps script \<le> nonEqualOps S" by simp
  qed
  with df ok show ?thesis by blast
qed

end
